theory Spec2Isabelle
  imports Main "HOL-Library.Word" "HOL-Library.Sublist"
begin

unbundle bit_operations_syntax

section \<open>Data model of \<open>unpack.ts\<close>\<close>

text \<open>
  JavaScript numbers that hold ids, modes, link counts and times are integer valued in
  every place modelled here; they are \<open>int\<close>, and \<open>undefined\<close> is \<open>None\<close>.
  The operator \<open>>>> 0\<close> is written out as the value modulo \<open>2^32\<close>; \<open>|\<close> and \<open>&\<close>
  are computed on \<open>32 word\<close> and read as signed.
\<close>

datatype EntryTypeName =
    File | OldFile | ContiguousFile | Directory | GNUDumpDir | Link | SymbolicLink
  | CharacterDevice | BlockDevice | FIFO | OtherType string

record ReadEntry =
  entry_type :: EntryTypeName
  path :: string
  linkpath :: "string option"
  mode :: "int option"
  entry_uid :: "int option"
  entry_gid :: "int option"
  mtime :: "int option"
  atime :: "int option"
  absolute :: "string option"
  unsupported :: bool

text \<open>The fields of class \<open>Unpack\<close>, with the module constant \<open>isWindows\<close>.\<close>

record Unpack =
  ENDED :: bool
  CHECKED_CWD :: bool
  PENDING :: int
  uid :: "int option"
  gid :: "int option"
  preserveOwner :: bool
  processUid :: "int option"
  processGid :: "int option"
  maxDepth :: "int option"
  forceChown :: bool
  win32 :: bool
  newer :: bool
  keep :: bool
  noMtime :: bool
  preservePaths :: bool
  unlink :: bool
  cwd :: string
  strip :: int
  dmode :: int
  fmode :: int
  noChmod :: bool
  isWindows :: bool

section \<open>Ownership: \<open>uint32\<close>, \<open>[UID]\<close>, \<open>[GID]\<close>, \<open>[DOCHOWN]\<close>\<close>

text \<open>\<open>a >>> 0\<close> on an integer-valued number: the value modulo \<open>2^32\<close>, unsigned.\<close>

definition urshift0 :: "int \<Rightarrow> int" where
  "urshift0 a = a mod 2 ^ 32"

text \<open>
  \<open>a !== undefined && a === a >>> 0 ? a : b !== undefined && b === b >>> 0 ? b : c\<close>
\<close>

definition uint32 :: "int option \<Rightarrow> int option \<Rightarrow> int option \<Rightarrow> int option" where
  "uint32 a b c =
     (if a \<noteq> None \<and> the a = urshift0 (the a) then a
      else if b \<noteq> None \<and> the b = urshift0 (the b) then b
      else c)"

definition UID :: "Unpack \<Rightarrow> ReadEntry \<Rightarrow> int option" where
  "UID u entry = uint32 (uid u) (entry_uid entry) (processUid u)"

definition GID :: "Unpack \<Rightarrow> ReadEntry \<Rightarrow> int option" where
  "GID u entry = uint32 (gid u) (entry_gid entry) (processGid u)"

definition DOCHOWN :: "Unpack \<Rightarrow> ReadEntry \<Rightarrow> bool" where
  "DOCHOWN u entry =
     (forceChown u \<or>
      (preserveOwner u \<and>
        ((entry_uid entry \<noteq> None \<and> entry_uid entry \<noteq> processUid u) \<or>
         (entry_gid entry \<noteq> None \<and> entry_gid entry \<noteq> processGid u))) \<or>
      (uid u \<noteq> None \<and> uid u \<noteq> processUid u) \<or>
      (gid u \<noteq> None \<and> gid u \<noteq> processGid u))"

text \<open>
  The owner handed to \<open>fs.fchown\<close>/\<open>fs.chown\<close> by \<open>[FILE]\<close>: the call is made when
  \<open>[DOCHOWN]\<close> holds and both ids are numbers.
\<close>

definition FILE_chown :: "Unpack \<Rightarrow> ReadEntry \<Rightarrow> (int \<times> int) option" where
  "FILE_chown u entry =
     (if DOCHOWN u entry then
        (case (UID u entry, GID u entry) of
           (Some i, Some g) \<Rightarrow> Some (i, g)
         | _ \<Rightarrow> None)
      else None)"

text \<open>
  The rule as the specification words it: the first defined of the three values, coerced
  to an unsigned 32-bit value.
\<close>

definition first_defined_coerced :: "int option \<Rightarrow> int option \<Rightarrow> int option \<Rightarrow> int option" where
  "first_defined_coerced a b c =
     map_option urshift0 (case a of Some x \<Rightarrow> Some x | None \<Rightarrow> (case b of Some y \<Rightarrow> Some y | None \<Rightarrow> c))"

definition is_uint32 :: "int option \<Rightarrow> bool" where
  "is_uint32 a = (case a of None \<Rightarrow> False | Some n \<Rightarrow> 0 \<le> n \<and> n < 2 ^ 32)"

definition example_owner_Unpack :: Unpack where
  "example_owner_Unpack =
     \<lparr> ENDED = False, CHECKED_CWD = False, PENDING = 0,
       uid = Some (- 1), gid = Some (- 1), preserveOwner = False,
       processUid = Some 1000, processGid = Some 1000, maxDepth = Some 1024,
       forceChown = False, win32 = False, newer = False, keep = False, noMtime = False,
       preservePaths = False, unlink = False, cwd = ''/x'', strip = 0,
       dmode = 493, fmode = 420, noChmod = False, isWindows = False \<rparr>"

definition example_owner_entry :: ReadEntry where
  "example_owner_entry =
     \<lparr> entry_type = File, path = ''a'', linkpath = None, mode = Some 420,
       entry_uid = Some 5, entry_gid = Some 6, mtime = None, atime = None,
       absolute = Some ''/x/a'', unsupported = False \<rparr>"

section \<open>Paths: \<open>split\<close>, \<open>join\<close> and \<open>getDirs\<close> of \<open>path-reservations.ts\<close>\<close>

text \<open>
  A string is the list of its UTF-8 bytes; the separator \<open>/\<close> and the dot are single
  bytes that occur in no multi-byte sequence, so splitting on \<open>/\<close> is what
  \<open>String.prototype.split('/')\<close> does on the code units.
\<close>

fun split_slash :: "string \<Rightarrow> string list" where
  "split_slash [] = [[]]"
| "split_slash (c # cs) =
     (if c = CHR ''/'' then [] # split_slash cs
      else (c # hd (split_slash cs)) # tl (split_slash cs))"

text \<open>\<open>Array.prototype.join('/')\<close>.\<close>

fun join_slash :: "string list \<Rightarrow> string" where
  "join_slash [] = []"
| "join_slash [x] = x"
| "join_slash (x # y # ys) = x @ CHR ''/'' # join_slash (y # ys)"

text \<open>
  \<open>normalizeString\<close> of Node's \<open>path\<close> module, one segment at a time: an empty segment
  and \<open>.\<close> are dropped, \<open>..\<close> removes the last segment kept unless there is none or
  it is \<open>..\<close> itself (then, for a relative path, \<open>..\<close> is kept), anything else is kept.
\<close>

definition normalize_step :: "bool \<Rightarrow> string list \<Rightarrow> string \<Rightarrow> string list" where
  "normalize_step allowAboveRoot res seg =
     (if seg = [] \<or> seg = ''.'' then res
      else if seg = ''..'' then
        (if res \<noteq> [] \<and> last res \<noteq> ''..'' then butlast res
         else if allowAboveRoot then res @ [''..''] else res)
      else res @ [seg])"

definition normalizeString :: "string \<Rightarrow> bool \<Rightarrow> string" where
  "normalizeString p allowAboveRoot =
     join_slash (foldl (normalize_step allowAboveRoot) [] (split_slash p))"

text \<open>\<open>path.posix.normalize\<close>.\<close>

definition posix_normalize :: "string \<Rightarrow> string" where
  "posix_normalize p =
     (if p = [] then ''.''
      else
        let isAbsolute = (hd p = CHR ''/'');
            trailingSeparator = (last p = CHR ''/'');
            r = normalizeString p (\<not> isAbsolute)
        in if r = [] then
             (if isAbsolute then ''/'' else if trailingSeparator then ''./'' else ''.'')
           else
             (let r' = (if trailingSeparator then r @ ''/'' else r)
              in if isAbsolute then CHR ''/'' # r' else r'))"

text \<open>\<open>path.posix.join(...args)\<close>: the non-empty arguments joined by \<open>/\<close>, normalized.\<close>

definition join :: "string list \<Rightarrow> string" where
  "join args =
     (case filter (\<lambda>a. a \<noteq> []) args of
        [] \<Rightarrow> ''.''
      | joined \<Rightarrow> posix_normalize (join_slash joined))"

text \<open>
  \<open>getDirs\<close>: the reducer joins each segment but the last onto the previous directory and
  pushes \<open>path || '/'\<close>.
\<close>

definition getDirs_step :: "string list \<Rightarrow> string \<Rightarrow> string list" where
  "getDirs_step dirset seg =
     (let p = (if dirset = [] then seg else join [last dirset, seg])
      in dirset @ [if p = [] then ''/'' else p])"

definition getDirs :: "string \<Rightarrow> string list" where
  "getDirs p = foldl getDirs_step [] (butlast (split_slash p))"

text \<open>
  Modelled from the spec: \<open>stripTrailingSlashes\<close> of \<open>strip-trailing-slashes.ts\<close>, which is
  not among the sources: remove any number of trailing \<open>/\<close> except when the entire path is \<open>/\<close>.
\<close>

fun stripTrailingSlashes :: "string \<Rightarrow> string" where
  "stripTrailingSlashes p =
     (if p = ''/'' then p
      else if p \<noteq> [] \<and> last p = CHR ''/'' then stripTrailingSlashes (butlast p)
      else p)"

declare stripTrailingSlashes.simps [simp del]

text \<open>
  The shape of a path that \<open>join\<close> and \<open>stripTrailingSlashes\<close> leave: \<open>/\<close>, \<open>.\<close>,
  or segments separated by single slashes, none of them empty or \<open>.\<close>, with \<open>..\<close>
  only at the front of a relative path.
\<close>

definition plain :: "string \<Rightarrow> bool" where
  "plain seg = (seg \<noteq> [] \<and> seg \<noteq> ''.'' \<and> seg \<noteq> ''..'' \<and> CHR ''/'' \<notin> set seg)"

definition normal_segs :: "string list \<Rightarrow> bool" where
  "normal_segs segs = list_all plain (dropWhile (\<lambda>s. s = ''..'') segs)"

definition normal_path :: "string \<Rightarrow> bool" where
  "normal_path p =
     (p = ''/'' \<or> p = ''.'' \<or>
      (if p \<noteq> [] \<and> hd p = CHR ''/'' then list_all plain (tl (split_slash p))
       else normal_segs (split_slash p)))"

text \<open>What is proved of the ancestor list of a path.\<close>

definition dirs_ok :: "string \<Rightarrow> bool" where
  "dirs_ok p =
     (sorted_wrt strict_prefix (getDirs p) \<and> distinct (getDirs p) \<and>
      (\<forall>d \<in> set (getDirs p). strict_prefix d p) \<and>
      (''/'' \<in> set (getDirs p) \<longleftrightarrow> hd p = CHR ''/'') \<and>
      (getDirs p \<noteq> [] \<longrightarrow>
         hd (getDirs p) = (if hd p = CHR ''/'' then ''/'' else hd (split_slash p)) \<and>
         p = (if last (getDirs p) = ''/'' then [] else last (getDirs p)) @
               CHR ''/'' # last (split_slash p)) \<and>
      length (getDirs p) = length (split_slash p) - 1)"

section \<open>What \<open>Unpack\<close> does: effects, the file system's answers, the host\<close>

datatype fs_error = CwdError | OtherError string

text \<open>
  Everything a method of \<open>Unpack\<close> does besides changing its own fields, in the order
  it does it: events emitted, warnings, the entry's \<open>resume\<close>, the directory cache, the
  calls of \<open>fs\<close> and of \<open>mkdir\<close>, the call of \<open>reservations.reserve\<close>, and the
  release of the reservation (\<open>fullyDone\<close>).
\<close>

datatype effect =
    Emit string
  | EmitError fs_error
  | Warn string string
  | Resume
  | DropCache
  | PruneCache string
  | CallReserve "string list"
  | Released
  | FsMkdir string int
  | FsLstat string
  | FsChmod string int
  | FsRmdir string
  | FsRename string string
  | FsUnlink string
  | FsOpen string int
  | FsLink string string
  | FsSymlink string string

datatype st_kind = RegularFile | DirectoryKind | SymlinkKind | OtherKind

record Stats =
  st_kind :: st_kind
  st_nlink :: int
  st_mode :: int
  st_mtime :: int

text \<open>
  The answers of the file system to the calls made for one entry: \<open>None\<close> is success,
  \<open>lstat\<close> answers with an error or with the \<open>Stats\<close>. \<open>random_hex\<close> is
  \<open>randomBytes(16).toString('hex')\<close>.
\<close>

record fs_answers =
  mkdir_answer :: "string \<Rightarrow> fs_error option"
  lstat_answer :: "string \<Rightarrow> fs_error + Stats"
  chmod_answer :: "string \<Rightarrow> fs_error option"
  rmdir_answer :: "string \<Rightarrow> fs_error option"
  rename_answer :: "string \<Rightarrow> fs_error option"
  unlink_answer :: "string \<Rightarrow> fs_error option"
  random_hex :: string

text \<open>
  Functions of Node's \<open>path\<close> module and of files of the repository that are not among
  the sources (\<open>strip-absolute-path.ts\<close>, \<open>winchars.ts\<close>), as parameters.
\<close>

record host =
  stripAbsolutePath :: "string \<Rightarrow> string \<times> string"
  isAbsolute :: "string \<Rightarrow> bool"
  resolve :: "string list \<Rightarrow> string"
  dirname :: "string \<Rightarrow> string"
  win32_root :: "string \<Rightarrow> string"
  wc_encode :: "string \<Rightarrow> string"

text \<open>
  Modelled from the spec: \<open>normalizeWindowsPath\<close> of \<open>normalize-windows-path.ts\<close>, which
  is not among the sources: on Windows platforms, replace \<open>\\<close> with \<open>/\<close> uniformly.
\<close>

definition normalizeWindowsPath :: "bool \<Rightarrow> string \<Rightarrow> string" where
  "normalizeWindowsPath isWin p =
     (if isWin then map (\<lambda>c. if c = CHR 0x5C then CHR ''/'' else c) p else p)"

text \<open>The operators \<open>|\<close> and \<open>&\<close>: both operands as 32-bit integers, the result signed.\<close>

definition js_or :: "int \<Rightarrow> int \<Rightarrow> int" where
  "js_or a b = sint ((word_of_int a :: 32 word) OR word_of_int b)"

definition js_and :: "int \<Rightarrow> int \<Rightarrow> int" where
  "js_and a b = sint ((word_of_int a :: 32 word) AND word_of_int b)"

section \<open>The completion tracker: \<open>[MAYBECLOSE]\<close>, \<open>[PEND]\<close>, \<open>[UNPEND]\<close>, \<open>ondone\<close>\<close>

definition MAYBECLOSE :: "Unpack \<Rightarrow> effect list" where
  "MAYBECLOSE u =
     (if ENDED u \<and> PENDING u = 0 then [Emit ''prefinish'', Emit ''finish'', Emit ''end'']
      else [])"

definition PEND :: "Unpack \<Rightarrow> Unpack" where
  "PEND u = u\<lparr>PENDING := PENDING u + 1\<rparr>"

definition UNPEND :: "Unpack \<Rightarrow> effect list \<times> Unpack" where
  "UNPEND u = (let u' = u\<lparr>PENDING := PENDING u - 1\<rparr> in (MAYBECLOSE u', u'))"








section \<open>The entry sanitizer: \<open>[CHECKPATH]\<close> and \<open>[ONENTRY]\<close>\<close>

text \<open>\<open>String(entry.linkpath)\<close>.\<close>

definition String_of :: "string option \<Rightarrow> string" where
  "String_of x = (case x of None \<Rightarrow> ''undefined'' | Some v \<Rightarrow> v)"

text \<open>\<open>Array.prototype.slice(k)\<close>: a negative \<open>k\<close> counts from the end.\<close>

definition slice_from :: "int \<Rightarrow> 'a list \<Rightarrow> 'a list" where
  "slice_from k xs =
     (if k < 0 then drop (nat (max 0 (int (length xs) + k))) xs else drop (nat k) xs)"

text \<open>\<open>/^[a-z]:\.\.$/i.test(s)\<close>.\<close>

definition drive_dotdot :: "string \<Rightarrow> bool" where
  "drive_dotdot s =
     (case s of
        [c, d, e, f] \<Rightarrow>
          ((97 \<le> (of_char c :: nat) \<and> (of_char c :: nat) \<le> 122) \<or>
           (65 \<le> (of_char c :: nat) \<and> (of_char c :: nat) \<le> 90)) \<and>
          d = CHR '':'' \<and> e = CHR ''.'' \<and> f = CHR ''.''
      | _ \<Rightarrow> False)"

text \<open>
  The constructor's \<open>typeof opt.maxDepth === 'number' ? opt.maxDepth : DEFAULT_MAX_DEPTH\<close>;
  the option is absent, or a number that is finite or not.
\<close>

definition DEFAULT_MAX_DEPTH :: int where
  "DEFAULT_MAX_DEPTH = 1024"

definition constructor_maxDepth :: "int option option \<Rightarrow> int option" where
  "constructor_maxDepth opt = (case opt of None \<Rightarrow> Some DEFAULT_MAX_DEPTH | Some d \<Rightarrow> d)"

text \<open>
  The first part of \<open>[CHECKPATH]\<close>: the path split into \<open>parts\<close> and, when \<open>strip\<close> is
  set, stripped. \<open>None\<close> is \<open>return false\<close>.
\<close>

definition strip_parts :: "Unpack \<Rightarrow> ReadEntry \<Rightarrow> (string list \<times> ReadEntry) option" where
  "strip_parts u entry =
     (let parts = split_slash (normalizeWindowsPath (isWindows u) (path entry)) in
      if strip u = 0 then Some (parts, entry)
      else if int (length parts) < strip u then None
      else
        (let linked =
           (if entry_type entry = Link then
              (let linkparts =
                 split_slash (normalizeWindowsPath (isWindows u) (String_of (linkpath entry)))
               in if strip u \<le> int (length linkparts)
                  then Some (entry\<lparr>linkpath := Some (join_slash (slice_from (strip u) linkparts))\<rparr>)
                  else None)
            else Some entry)
         in case linked of
              None \<Rightarrow> None
            | Some entry1 \<Rightarrow>
                (let parts' = drop (nat (strip u)) parts
                 in Some (parts', entry1\<lparr>path := join_slash parts'\<rparr>))))"

text \<open>
  \<open>[CHECKPATH]\<close>: the verdict, the entry as it leaves, and the warnings. \<open>maxDepth\<close> is
  \<open>None\<close> when it is not finite.
\<close>

definition CHECKPATH :: "host \<Rightarrow> Unpack \<Rightarrow> ReadEntry \<Rightarrow> bool \<times> ReadEntry \<times> effect list" where
  "CHECKPATH h u entry =
     (let p = normalizeWindowsPath (isWindows u) (path entry) in
      case strip_parts u entry of
        None \<Rightarrow> (False, entry, [])
      | Some (parts, entry1) \<Rightarrow>
          if (case maxDepth u of None \<Rightarrow> False | Some d \<Rightarrow> d < int (length parts)) then
            (False, entry1, [Warn ''TAR_ENTRY_ERROR'' ''path excessively deep''])
          else if \<not> preservePaths u \<and>
                  (''..'' \<in> set parts \<or>
                   (isWindows u \<and> (case parts of [] \<Rightarrow> False | x # _ \<Rightarrow> drive_dotdot x))) then
            (False, entry1, [Warn ''TAR_ENTRY_ERROR'' (''path contains '..'' @ [CHR 0x27])])
          else
            (let (root, stripped) = stripAbsolutePath h p;
                 rooted = (\<not> preservePaths u \<and> root \<noteq> []);
                 entry2 = (if rooted then entry1\<lparr>path := stripped\<rparr> else entry1);
                 w2 = (if rooted
                       then [Warn ''TAR_ENTRY_INFO'' (''stripping '' @ root @ '' from absolute path'')]
                       else []);
                 a = (if isAbsolute h (path entry2)
                      then normalizeWindowsPath (isWindows u) (resolve h [path entry2])
                      else normalizeWindowsPath (isWindows u) (resolve h [cwd u, path entry2]));
                 entry3 = entry2\<lparr>absolute := Some a\<rparr>
             in if \<not> preservePaths u \<and> \<not> prefix (cwd u @ ''/'') a \<and> a \<noteq> cwd u then
                  (False, entry3, w2 @ [Warn ''TAR_ENTRY_ERROR'' ''path escaped extraction target''])
                else if a = cwd u \<and> entry_type entry3 \<noteq> Directory \<and> entry_type entry3 \<noteq> GNUDumpDir then
                  (False, entry3, w2)
                else if win32 u then
                  (let aRoot = win32_root h a;
                       pRoot = win32_root h (path entry3)
                   in (True,
                       entry3\<lparr>absolute := Some (aRoot @ wc_encode h (drop (length aRoot) a)),
                              path := pRoot @ wc_encode h (drop (length pRoot) (path entry3))\<rparr>,
                       w2))
                else (True, entry3, w2)))"

text \<open>\<open>[UNSUPPORTED]\<close>, with the entry's type as the string it is in the source.\<close>

fun type_name :: "EntryTypeName \<Rightarrow> string" where
  "type_name File = ''File''"
| "type_name OldFile = ''OldFile''"
| "type_name ContiguousFile = ''ContiguousFile''"
| "type_name Directory = ''Directory''"
| "type_name GNUDumpDir = ''GNUDumpDir''"
| "type_name Link = ''Link''"
| "type_name SymbolicLink = ''SymbolicLink''"
| "type_name CharacterDevice = ''CharacterDevice''"
| "type_name BlockDevice = ''BlockDevice''"
| "type_name FIFO = ''FIFO''"
| "type_name (OtherType t) = t"

definition UNSUPPORTED :: "ReadEntry \<Rightarrow> ReadEntry \<times> effect list" where
  "UNSUPPORTED entry =
     (entry\<lparr>unsupported := True\<rparr>,
      [Warn ''TAR_ENTRY_UNSUPPORTED'' (''unsupported entry type: '' @ type_name (entry_type entry)),
       Resume])"

text \<open>
  \<open>[CHECKFS]\<close> of the parallel profile: count the entry as pending and ask the scheduler
  for its path and, when it has one, its link path.
\<close>

definition CHECKFS :: "Unpack \<Rightarrow> ReadEntry \<Rightarrow> effect list \<times> Unpack" where
  "CHECKFS u entry =
     ([CallReserve (path entry #
         (case linkpath entry of None \<Rightarrow> [] | Some l \<Rightarrow> if l = [] then [] else [l]))],
      PEND u)"

text \<open>
  \<open>[ONENTRY]\<close>: what is called next and with which entry, after \<open>[CHECKPATH]\<close> and the
  forcing of the owner bits of a directory's mode.
\<close>

datatype next_call = Drained | ToCHECKFS ReadEntry | ToUNSUPPORTED ReadEntry

definition ONENTRY_next :: "host \<Rightarrow> Unpack \<Rightarrow> ReadEntry \<Rightarrow> next_call \<times> effect list" where
  "ONENTRY_next h u entry =
     (case CHECKPATH h u entry of
        (False, entry', ws) \<Rightarrow> (Drained, ws)
      | (True, entry', ws) \<Rightarrow>
          (if entry_type entry' = Directory \<or> entry_type entry' = GNUDumpDir then
             (ToCHECKFS
                (case mode entry' of
                   None \<Rightarrow> entry'
                 | Some m \<Rightarrow> if m = 0 then entry' else entry'\<lparr>mode := Some (js_or m 448)\<rparr>),
              ws)
           else if entry_type entry' \<in> {File, OldFile, ContiguousFile, Link, SymbolicLink} then
             (ToCHECKFS entry', ws)
           else (ToUNSUPPORTED entry', ws)))"

definition ONENTRY :: "host \<Rightarrow> Unpack \<Rightarrow> ReadEntry \<Rightarrow> effect list \<times> Unpack" where
  "ONENTRY h u entry =
     (case ONENTRY_next h u entry of
        (Drained, ws) \<Rightarrow> (ws @ [Resume], u)
      | (ToCHECKFS entry', ws) \<Rightarrow> (let (es, u') = CHECKFS u entry' in (ws @ es, u'))
      | (ToUNSUPPORTED entry', ws) \<Rightarrow> (ws @ snd (UNSUPPORTED entry'), u))"

text \<open>The mode \<open>[DIRECTORY]\<close> and \<open>[FILE]\<close> create with.\<close>

definition DIRECTORY_mode :: "Unpack \<Rightarrow> ReadEntry \<Rightarrow> int" where
  "DIRECTORY_mode u entry = (case mode entry of Some m \<Rightarrow> js_and m 4095 | None \<Rightarrow> dmode u)"

definition FILE_mode :: "Unpack \<Rightarrow> ReadEntry \<Rightarrow> int" where
  "FILE_mode u entry = (case mode entry of Some m \<Rightarrow> js_and m 4095 | None \<Rightarrow> fmode u)"

section \<open>The reconciler: \<open>[CHECKFS2]\<close> and \<open>UnpackSync[CHECKFS]\<close>\<close>

definition PRUNECACHE :: "ReadEntry \<Rightarrow> effect list" where
  "PRUNECACHE entry =
     (if entry_type entry = SymbolicLink then [DropCache]
      else if entry_type entry \<noteq> Directory then [PruneCache (String_of (absolute entry))]
      else [])"

definition error_text :: "fs_error \<Rightarrow> string" where
  "error_text er = (case er of CwdError \<Rightarrow> ''CwdError'' | OtherError t \<Rightarrow> t)"

definition ONERROR :: "Unpack \<Rightarrow> fs_error \<Rightarrow> ReadEntry \<Rightarrow> effect list \<times> Unpack" where
  "ONERROR u er entry =
     (if er = CwdError then ([EmitError er], u)
      else (let (es, u') = UNPEND u
            in (Warn ''TAR_ENTRY_ERROR'' (error_text er) # es @ [Resume], u')))"

definition SKIP :: "Unpack \<Rightarrow> ReadEntry \<Rightarrow> effect list \<times> Unpack" where
  "SKIP u entry = (let (es, u') = UNPEND u in (es @ [Resume], u'))"

definition ISREUSABLE :: "Unpack \<Rightarrow> ReadEntry \<Rightarrow> Stats \<Rightarrow> bool" where
  "ISREUSABLE u entry st =
     (entry_type entry = File \<and> \<not> unlink u \<and> st_kind st = RegularFile \<and>
      st_nlink st \<le> 1 \<and> \<not> isWindows u)"

text \<open>
  \<open>unlinkFile\<close> and \<open>unlinkFileSync\<close>: the calls made and the error handed on. On
  Windows the file is renamed first and the renamed file unlinked.
\<close>

definition unlinkFile :: "bool \<Rightarrow> fs_answers \<Rightarrow> string \<Rightarrow> effect list \<times> fs_error option" where
  "unlinkFile isWin fs p =
     (if \<not> isWin then ([FsUnlink p], unlink_answer fs p)
      else (let name = p @ ''.DELETE.'' @ random_hex fs in
            case rename_answer fs p of
              Some er \<Rightarrow> ([FsRename p name], Some er)
            | None \<Rightarrow> ([FsRename p name, FsUnlink name], unlink_answer fs name)))"

text \<open>
  The materializer, up to its first call: \<open>[FILE]\<close> opens the path for writing,
  \<open>[HARDLINK]\<close> and \<open>[SYMLINK]\<close> link, \<open>[DIRECTORY]\<close> calls \<open>[MKDIR]\<close>. What follows
  that call (the payload, times, owner, the completion) is outside this model.
\<close>

definition materialize :: "host \<Rightarrow> Unpack \<Rightarrow> ReadEntry \<Rightarrow> effect list" where
  "materialize h u entry =
     (let a = String_of (absolute entry) in
      if entry_type entry \<in> {File, OldFile, ContiguousFile} then [FsOpen a (FILE_mode u entry)]
      else if entry_type entry = Link then
        [FsLink (normalizeWindowsPath (isWindows u) (resolve h [cwd u, String_of (linkpath entry)])) a]
      else if entry_type entry = SymbolicLink then [FsSymlink (String_of (linkpath entry)) a]
      else if entry_type entry \<in> {Directory, GNUDumpDir} then
        [FsMkdir (normalizeWindowsPath (isWindows u) a) (DIRECTORY_mode u entry)]
      else [])"

text \<open>
  \<open>[MAKEFS]\<close> with the callback \<open>done\<close> of \<open>[CHECKFS2]\<close>, which prunes the cache again
  and releases the reservation; and \<open>UnpackSync[MAKEFS]\<close>, whose callback does nothing.
\<close>

definition MAKEFS ::
  "host \<Rightarrow> Unpack \<Rightarrow> fs_error option \<Rightarrow> ReadEntry \<Rightarrow> effect list \<times> Unpack" where
  "MAKEFS h u er entry =
     (case er of
        Some e \<Rightarrow> (let (es, u') = ONERROR u e entry in (es @ PRUNECACHE entry @ [Released], u'))
      | None \<Rightarrow> (materialize h u entry, u))"

definition MAKEFS_sync ::
  "host \<Rightarrow> Unpack \<Rightarrow> fs_error option \<Rightarrow> ReadEntry \<Rightarrow> effect list \<times> Unpack" where
  "MAKEFS_sync h u er entry =
     (case er of
        Some e \<Rightarrow> ONERROR u e entry
      | None \<Rightarrow> (materialize h u entry, u))"

text \<open>\<open>!this.noChmod && entry.mode && (st.mode & 0o7777) !== entry.mode\<close>.\<close>

definition needChmod :: "Unpack \<Rightarrow> ReadEntry \<Rightarrow> Stats \<Rightarrow> bool" where
  "needChmod u entry st =
     (\<not> noChmod u \<and>
      (case mode entry of None \<Rightarrow> False | Some m \<Rightarrow> m \<noteq> 0 \<and> js_and (st_mode st) 4095 \<noteq> m))"

text \<open>\<open>this.keep || (this.newer && st.mtime > (entry.mtime ?? st.mtime))\<close>.\<close>

definition keep_existing :: "Unpack \<Rightarrow> ReadEntry \<Rightarrow> Stats \<Rightarrow> bool" where
  "keep_existing u entry st =
     (keep u \<or>
      (newer u \<and> (case mtime entry of None \<Rightarrow> st_mtime st | Some t \<Rightarrow> t) < st_mtime st))"

text \<open>The closure \<open>afterMakeParent\<close> of \<open>[CHECKFS2]\<close>.\<close>

definition afterMakeParent ::
  "host \<Rightarrow> Unpack \<Rightarrow> fs_answers \<Rightarrow> ReadEntry \<Rightarrow> effect list \<times> Unpack" where
  "afterMakeParent h u fs entry =
     (let a = String_of (absolute entry);
          after = (\<lambda>pre er. let (es, u') = MAKEFS h u er entry in (FsLstat a # pre @ es, u'))
      in case lstat_answer fs a of
           Inl lstatEr \<Rightarrow> after [] None
         | Inr st \<Rightarrow>
             if keep_existing u entry st then
               (let (es, u') = SKIP u entry in (FsLstat a # es @ PRUNECACHE entry @ [Released], u'))
             else if ISREUSABLE u entry st then after [] None
             else if st_kind st = DirectoryKind \<and> entry_type entry = Directory then
               (if \<not> needChmod u entry st then after [] None
                else after [FsChmod a (the (mode entry))] (chmod_answer fs a))
             else if st_kind st = DirectoryKind \<and> a \<noteq> cwd u then
               after [FsRmdir a] (rmdir_answer fs a)
             else if a = cwd u then after [] None
             else (let (us, er) = unlinkFile (isWindows u) fs a in after us er))"

text \<open>The closures \<open>start\<close> and \<open>checkCwd\<close>, and \<open>[CHECKFS2]\<close> itself.\<close>

definition start :: "host \<Rightarrow> Unpack \<Rightarrow> fs_answers \<Rightarrow> ReadEntry \<Rightarrow> effect list \<times> Unpack" where
  "start h u fs entry =
     (let a = String_of (absolute entry);
          parent = normalizeWindowsPath (isWindows u) (dirname h a)
      in if a \<noteq> cwd u \<and> parent \<noteq> cwd u then
           (let d = normalizeWindowsPath (isWindows u) parent in
            case mkdir_answer fs d of
              Some er \<Rightarrow>
                (let (es, u') = ONERROR u er entry
                 in (FsMkdir d (dmode u) # es @ PRUNECACHE entry @ [Released], u'))
            | None \<Rightarrow>
                (let (es, u') = afterMakeParent h u fs entry in (FsMkdir d (dmode u) # es, u')))
         else afterMakeParent h u fs entry)"

definition CHECKFS2 :: "host \<Rightarrow> Unpack \<Rightarrow> fs_answers \<Rightarrow> ReadEntry \<Rightarrow> effect list \<times> Unpack" where
  "CHECKFS2 h u fs entry =
     (let (es, u') =
        (if CHECKED_CWD u then start h u fs entry
         else
           (let d = normalizeWindowsPath (isWindows u) (cwd u) in
            case mkdir_answer fs d of
              Some er \<Rightarrow>
                (let (es, u') = ONERROR u er entry
                 in (FsMkdir d (dmode u) # es @ PRUNECACHE entry @ [Released], u'))
            | None \<Rightarrow>
                (let (es, u') = start h (u\<lparr>CHECKED_CWD := True\<rparr>) fs entry
                 in (FsMkdir d (dmode u) # es, u'))))
      in (PRUNECACHE entry @ es, u'))"

text \<open>
  \<open>UnpackSync[CHECKFS]\<close>, in three parts. After \<open>rmdirSync\<close> the method calls
  \<open>[MAKEFS]\<close> and goes on to the last two statements.
\<close>

definition CHECKFS_sync_lstat ::
  "host \<Rightarrow> Unpack \<Rightarrow> fs_answers \<Rightarrow> ReadEntry \<Rightarrow> effect list \<times> Unpack" where
  "CHECKFS_sync_lstat h u fs entry =
     (let a = String_of (absolute entry);
          last_part = (\<lambda>u1.
            (let (us, er) = (if a = cwd u1 then ([], None) else unlinkFile (isWindows u1) fs a);
                 (es, u2) = MAKEFS_sync h u1 er entry
             in (us @ es, u2)))
      in case lstat_answer fs a of
           Inl lstatEr \<Rightarrow> (let (es, u') = MAKEFS_sync h u None entry in (FsLstat a # es, u'))
         | Inr st \<Rightarrow>
             if keep_existing u entry st then
               (let (es, u') = SKIP u entry in (FsLstat a # es, u'))
             else if ISREUSABLE u entry st then
               (let (es, u') = MAKEFS_sync h u None entry in (FsLstat a # es, u'))
             else if st_kind st = DirectoryKind \<and> entry_type entry = Directory then
               (if \<not> needChmod u entry st then
                  (let (es, u') = MAKEFS_sync h u None entry in (FsLstat a # es, u'))
                else
                  (let (es, u') = MAKEFS_sync h u (chmod_answer fs a) entry
                   in (FsLstat a # FsChmod a (the (mode entry)) # es, u')))
             else if st_kind st = DirectoryKind then
               (let (es, u1) = MAKEFS_sync h u (rmdir_answer fs a) entry;
                    (es', u2) = last_part u1
                in (FsLstat a # FsRmdir a # es @ es', u2))
             else (let (es', u2) = last_part u in (FsLstat a # es', u2)))"

definition CHECKFS_sync_parent ::
  "host \<Rightarrow> Unpack \<Rightarrow> fs_answers \<Rightarrow> ReadEntry \<Rightarrow> effect list \<times> Unpack" where
  "CHECKFS_sync_parent h u fs entry =
     (let a = String_of (absolute entry);
          parent = normalizeWindowsPath (isWindows u) (dirname h a)
      in if a \<noteq> cwd u \<and> parent \<noteq> cwd u then
           (let d = normalizeWindowsPath (isWindows u) parent in
            case mkdir_answer fs d of
              Some er \<Rightarrow> (let (es, u') = ONERROR u er entry in (FsMkdir d (dmode u) # es, u'))
            | None \<Rightarrow>
                (let (es, u') = CHECKFS_sync_lstat h u fs entry in (FsMkdir d (dmode u) # es, u')))
         else CHECKFS_sync_lstat h u fs entry)"

definition CHECKFS_sync :: "host \<Rightarrow> Unpack \<Rightarrow> fs_answers \<Rightarrow> ReadEntry \<Rightarrow> effect list \<times> Unpack" where
  "CHECKFS_sync h u fs entry =
     (let (es, u') =
        (if CHECKED_CWD u then CHECKFS_sync_parent h u fs entry
         else
           (let d = normalizeWindowsPath (isWindows u) (cwd u) in
            case mkdir_answer fs d of
              Some er \<Rightarrow> (let (es, u') = ONERROR u er entry in (FsMkdir d (dmode u) # es, u'))
            | None \<Rightarrow>
                (let (es, u') = CHECKFS_sync_parent h (u\<lparr>CHECKED_CWD := True\<rparr>) fs entry
                 in (FsMkdir d (dmode u) # es, u'))))
      in (PRUNECACHE entry @ es, u'))"

text \<open>
  The file-system actions and warnings among the effects: what the two profiles are
  compared on.
\<close>

fun fs_action :: "effect \<Rightarrow> bool" where
  "fs_action (Warn c m) = True"
| "fs_action (FsMkdir p m) = True"
| "fs_action (FsLstat p) = True"
| "fs_action (FsChmod p m) = True"
| "fs_action (FsRmdir p) = True"
| "fs_action (FsRename p q) = True"
| "fs_action (FsUnlink p) = True"
| "fs_action (FsOpen p m) = True"
| "fs_action (FsLink p q) = True"
| "fs_action (FsSymlink p q) = True"
| "fs_action e = False"

text \<open>Removals of a path: \<open>rmdir\<close>, \<open>unlink\<close>, and the \<open>rename\<close> that precedes it on Windows.\<close>

fun removes :: "string \<Rightarrow> effect \<Rightarrow> bool" where
  "removes a (FsRmdir p) = (p = a)"
| "removes a (FsUnlink p) = (p = a)"
| "removes a (FsRename p q) = (p = a)"
| "removes a e = False"

text \<open>The preparation before \<open>lstat\<close>: pruning the cache, making the root and the parent.\<close>

fun preparation :: "effect \<Rightarrow> bool" where
  "preparation DropCache = True"
| "preparation (PruneCache p) = True"
| "preparation (FsMkdir p m) = True"
| "preparation e = False"

text \<open>
  The branch of the reconciler in which the two profiles part: \<open>lstat\<close> finds a
  directory, the existing entry is not kept, and the entry is not a \<open>Directory\<close>.
\<close>

definition rmdir_branch :: "Unpack \<Rightarrow> fs_answers \<Rightarrow> ReadEntry \<Rightarrow> bool" where
  "rmdir_branch u fs entry =
     (case lstat_answer fs (String_of (absolute entry)) of
        Inl er \<Rightarrow> False
      | Inr st \<Rightarrow> \<not> keep_existing u entry st \<and> st_kind st = DirectoryKind \<and>
                 entry_type entry \<noteq> Directory)"

text \<open>
  The reconciler reaches \<open>lstat\<close> when \<open>[MKDIR]\<close> does not fail: of the root, if the
  root has not been checked yet, and of the parent, if the entry is not the root and
  its parent is not the root.
\<close>

definition dirs_made :: "host \<Rightarrow> Unpack \<Rightarrow> fs_answers \<Rightarrow> ReadEntry \<Rightarrow> bool" where
  "dirs_made h u fs entry =
     (let a = String_of (absolute entry);
          parent = normalizeWindowsPath (isWindows u) (dirname h a)
      in (CHECKED_CWD u \<or>
          mkdir_answer fs (normalizeWindowsPath (isWindows u) (cwd u)) = None) \<and>
         (a = cwd u \<or> parent = cwd u \<or>
          mkdir_answer fs (normalizeWindowsPath (isWindows u) parent) = None))"

text \<open>
  The directory tree that the calls act on: the inode and the kind that each path
  names, and the next inode number that is free.
\<close>

record tree =
  names :: "string \<rightharpoonup> nat \<times> st_kind"
  next_inode :: nat

definition new_inode :: "string \<Rightarrow> st_kind \<Rightarrow> tree \<Rightarrow> tree" where
  "new_inode p k t =
     \<lparr> names = (names t)(p \<mapsto> (next_inode t, k)), next_inode = next_inode t + 1 \<rparr>"

text \<open>
  Modelled from the spec: the flag \<open>getWriteFlag(entry.size)\<close> of \<open>get-write-flag.ts\<close>,
  which is not among the sources: open for writing with a flag chosen by size, a
  create-truncate or a write-with-append. With either the file is made when the path
  names nothing, and a file that is there is opened as it is, the same inode, and
  written over.
\<close>

definition open_for_writing :: "string \<Rightarrow> tree \<Rightarrow> tree" where
  "open_for_writing p t =
     (case names t p of None \<Rightarrow> new_inode p RegularFile t | Some x \<Rightarrow> t)"

text \<open>
  Modelled from the spec: the components that \<open>mkdir\<close> of \<open>mkdir.ts\<close>, which is not
  among the sources, goes through: every component from \<open>cwd\<close> down to \<open>dir\<close>.
\<close>

definition components :: "string \<Rightarrow> string \<Rightarrow> string list" where
  "components c d =
     filter (\<lambda>p. length c \<le> length p)
       (map (\<lambda>n. take n d) (filter (\<lambda>n. d ! n = CHR ''/'') [1..<length d]) @ [d])"

text \<open>
  Modelled from the spec: one component in \<open>mkdir\<close>. On success it exists and is a
  directory: a directory that is there is kept and a missing one is made; what else is
  in the way is removed only with the \<open>unlink\<close> flag.
\<close>

definition make_directory :: "bool \<Rightarrow> string \<Rightarrow> tree \<Rightarrow> tree" where
  "make_directory unl p t =
     (case names t p of
        None \<Rightarrow> new_inode p DirectoryKind t
      | Some (i, k) \<Rightarrow>
          if k \<noteq> DirectoryKind \<and> unl then new_inode p DirectoryKind t else t)"

text \<open>
  Modelled from the spec: \<open>mkdir\<close> of \<open>mkdir.ts\<close>: on success, every component from
  \<open>cwd\<close> down to \<open>dir\<close> exists and is a directory.
\<close>

definition mkdir_on_tree :: "bool \<Rightarrow> string \<Rightarrow> string \<Rightarrow> tree \<Rightarrow> tree" where
  "mkdir_on_tree unl c d t = fold (make_directory unl) (components c d) t"

text \<open>
  One call on the tree. \<open>unlink\<close> and \<open>rmdir\<close> take a name away, \<open>rename\<close> moves it,
  \<open>link\<close> gives an inode a second name and \<open>symlink\<close> makes a new one where the path
  is free. A call that the file system answers with an error changes nothing; \<open>open\<close>,
  \<open>link\<close> and \<open>symlink\<close>, for which there is no answer here, do what they can.
\<close>

fun fs_call :: "fs_answers \<Rightarrow> Unpack \<Rightarrow> effect \<Rightarrow> tree \<Rightarrow> tree" where
  "fs_call fs u (FsMkdir d m) t =
     (if mkdir_answer fs d = None then mkdir_on_tree (unlink u) (cwd u) d t else t)"
| "fs_call fs u (FsRmdir p) t =
     (if rmdir_answer fs p = None then t\<lparr>names := (names t)(p := None)\<rparr> else t)"
| "fs_call fs u (FsUnlink p) t =
     (if unlink_answer fs p = None then t\<lparr>names := (names t)(p := None)\<rparr> else t)"
| "fs_call fs u (FsRename p q) t =
     (if rename_answer fs p = None then t\<lparr>names := (names t)(p := None, q := names t p)\<rparr>
      else t)"
| "fs_call fs u (FsOpen p m) t = open_for_writing p t"
| "fs_call fs u (FsLink p q) t =
     (case (names t p, names t q) of
        (Some x, None) \<Rightarrow> t\<lparr>names := (names t)(q \<mapsto> x)\<rparr>
      | _ \<Rightarrow> t)"
| "fs_call fs u (FsSymlink p q) t =
     (case names t q of None \<Rightarrow> new_inode q SymlinkKind t | Some x \<Rightarrow> t)"
| "fs_call fs u e t = t"

definition tree_after :: "fs_answers \<Rightarrow> Unpack \<Rightarrow> effect list \<Rightarrow> tree \<Rightarrow> tree" where
  "tree_after fs u es t = fold (fs_call fs u) es t"

section \<open>The scheduler: class \<open>PathReservations\<close>\<close>

text \<open>
  A handler is a function object, compared by identity: it is a number here. A queue
  entry is a handler (a reservation of that very path) or a \<open>Set\<close> of handlers
  (reservations of the path as a directory). A \<open>Set\<close> is the list of its elements in
  insertion order; the operations below never put an element in twice.
\<close>

type_synonym Handler = nat

datatype slot = Fn Handler | HSet "Handler list"

record Reservation =
  paths :: "string list"
  dirs :: "string list"

record PathReservations =
  queues :: "string \<rightharpoonup> slot list"
  reservations :: "Handler \<rightharpoonup> Reservation"
  running :: "Handler set"
  started :: "Handler list"

datatype error = TypeError | NoPathReservations | InvalidReservation

definition set_add :: "'a list \<Rightarrow> 'a \<Rightarrow> 'a list" where
  "set_add xs x = (if x \<in> set xs then xs else xs @ [x])"

definition new_Set :: "'a list \<Rightarrow> 'a list" where
  "new_Set xs = foldl set_add [] xs"

definition new_PathReservations :: PathReservations where
  "new_PathReservations =
     \<lparr> queues = Map.empty, reservations = Map.empty, running = {}, started = [] \<rparr>"

text \<open>
  The canonical form \<open>reserve\<close> computes for a path:
  \<open>stripTrailingSlashes(join(normalizeUnicode(p))).toLowerCase()\<close>. The two functions
  \<open>normalizeUnicode\<close> (of \<open>normalize-unicode.ts\<close>) and \<open>toLowerCase\<close> are parameters.
\<close>

definition canonical :: "(string \<Rightarrow> string) \<Rightarrow> (string \<Rightarrow> string) \<Rightarrow> string \<Rightarrow> string" where
  "canonical normalizeUnicode toLowerCase p =
     toLowerCase (stripTrailingSlashes (join [normalizeUnicode p]))"

text \<open>The first loop of \<open>reserve\<close>, one path: \<open>queues.set(p, [fn])\<close> or \<open>q.push(fn)\<close>.\<close>

definition reserve_path ::
  "Handler \<Rightarrow> (string \<rightharpoonup> slot list) \<Rightarrow> string \<Rightarrow> (string \<rightharpoonup> slot list)" where
  "reserve_path fn qs p =
     (case qs p of
        None \<Rightarrow> qs(p \<mapsto> [Fn fn])
      | Some q \<Rightarrow> qs(p \<mapsto> q @ [Fn fn]))"

text \<open>
  The second loop, one directory: a new queue with a new \<open>Set\<close>, or \<open>fn\<close> added to the
  \<open>Set\<close> at the end of the queue, or a new \<open>Set\<close> pushed after a handler.
\<close>

definition reserve_dir ::
  "Handler \<Rightarrow> (string \<rightharpoonup> slot list) \<Rightarrow> string \<Rightarrow> (string \<rightharpoonup> slot list)" where
  "reserve_dir fn qs dir =
     (case qs dir of
        None \<Rightarrow> qs(dir \<mapsto> [HSet [fn]])
      | Some q \<Rightarrow>
          (if q = [] then qs(dir \<mapsto> [HSet [fn]])
           else (case last q of
                   HSet l \<Rightarrow> qs(dir \<mapsto> butlast q @ [HSet (set_add l fn)])
                 | Fn g \<Rightarrow> qs(dir \<mapsto> q @ [HSet [fn]]))))"

text \<open>
  \<open>check\<close>: \<open>fn\<close> is first in line in the queue of each of its paths and is in the
  \<open>Set\<close> that heads the queue of each of its directories. Without a reservation
  \<open>#getQueues\<close> throws.
\<close>

definition path_first :: "(string \<rightharpoonup> slot list) \<Rightarrow> Handler \<Rightarrow> string \<Rightarrow> bool" where
  "path_first qs fn p = (case qs p of Some (Fn g # rest) \<Rightarrow> g = fn | _ \<Rightarrow> False)"

definition dir_first :: "(string \<rightharpoonup> slot list) \<Rightarrow> Handler \<Rightarrow> string \<Rightarrow> bool" where
  "dir_first qs fn d = (case qs d of Some (HSet l # rest) \<Rightarrow> fn \<in> set l | _ \<Rightarrow> False)"

definition check :: "PathReservations \<Rightarrow> Handler \<Rightarrow> error + bool" where
  "check s fn =
     (case reservations s fn of
        None \<Rightarrow> Inl NoPathReservations
      | Some res \<Rightarrow>
          Inr (list_all (path_first (queues s) fn) (paths res) \<and>
               list_all (dir_first (queues s) fn) (dirs res)))"

text \<open>
  \<open>#run\<close>: a handler that is not running and passes \<open>check\<close> joins the running set and
  is called; the call is recorded in \<open>started\<close>.
\<close>

definition run :: "PathReservations \<Rightarrow> Handler \<Rightarrow> (error + bool) \<times> PathReservations" where
  "run s fn =
     (if fn \<in> running s then (Inr False, s)
      else (case check s fn of
              Inl e \<Rightarrow> (Inl e, s)
            | Inr False \<Rightarrow> (Inr False, s)
            | Inr True \<Rightarrow>
                (Inr True, s\<lparr>running := insert fn (running s), started := started s @ [fn]\<rparr>)))"

text \<open>
  \<open>reserve\<close>. The \<open>reduce\<close> without an initial value throws a \<open>TypeError\<close> on an empty
  list of paths, before anything is stored.
\<close>

definition reserve ::
  "bool \<Rightarrow> (string \<Rightarrow> string) \<Rightarrow> (string \<Rightarrow> string) \<Rightarrow> PathReservations \<Rightarrow> string list \<Rightarrow> Handler
     \<Rightarrow> (error + bool) \<times> PathReservations" where
  "reserve isWin normalizeUnicode toLowerCase s ps fn =
     (let ps' = (if isWin then [''win32 parallelization disabled'']
                 else map (canonical normalizeUnicode toLowerCase) ps)
      in if ps' = [] then (Inl TypeError, s)
         else
           let ds = new_Set (concat (map getDirs ps'));
               s1 = s\<lparr>reservations := (reservations s)(fn \<mapsto> \<lparr>paths = ps', dirs = ds\<rparr>)\<rparr>;
               s2 = s1\<lparr>queues := foldl (reserve_path fn) (queues s1) ps'\<rparr>;
               s3 = s2\<lparr>queues := foldl (reserve_dir fn) (queues s2) ds\<rparr>
           in run s3 fn)"

text \<open>The first loop of \<open>#clear\<close>, one path; \<open>next\<close> is a \<open>Set\<close> of handlers.\<close>

definition clear_path ::
  "Handler \<Rightarrow> (string \<rightharpoonup> slot list) \<times> Handler list \<Rightarrow> string
     \<Rightarrow> (string \<rightharpoonup> slot list) \<times> Handler list" where
  "clear_path fn st p =
     (let (qs, nxt) = st in
      case qs p of
        Some (Fn g # rest) \<Rightarrow>
          (if g \<noteq> fn then (qs, nxt)
           else (case rest of
                   [] \<Rightarrow> (qs(p := None), nxt)
                 | Fn h # _ \<Rightarrow> (qs(p \<mapsto> rest), set_add nxt h)
                 | HSet l # _ \<Rightarrow> (qs(p \<mapsto> rest), foldl set_add nxt l)))
      | _ \<Rightarrow> (qs, nxt))"

text \<open>The second loop of \<open>#clear\<close>, one directory.\<close>

definition clear_dir ::
  "Handler \<Rightarrow> (string \<rightharpoonup> slot list) \<times> Handler list \<Rightarrow> string
     \<Rightarrow> (string \<rightharpoonup> slot list) \<times> Handler list" where
  "clear_dir fn st dir =
     (let (qs, nxt) = st in
      case qs dir of
        Some (HSet l # rest) \<Rightarrow>
          (if length l = 1 \<and> rest = [] then (qs(dir := None), nxt)
           else if length l = 1 then
             (qs(dir \<mapsto> rest), (case rest of Fn n # _ \<Rightarrow> set_add nxt n | _ \<Rightarrow> nxt))
           else (qs(dir \<mapsto> HSet (removeAll fn l) # rest), nxt))
      | _ \<Rightarrow> (qs, nxt))"

text \<open>\<open>next.forEach(fn => this.#run(fn))\<close>; a throw ends the loop.\<close>

fun run_next :: "PathReservations \<Rightarrow> Handler list \<Rightarrow> (error + bool) \<times> PathReservations" where
  "run_next s [] = (Inr True, s)"
| "run_next s (f # fs) =
     (case run s f of
        (Inl e, s') \<Rightarrow> (Inl e, s')
      | (Inr b, s') \<Rightarrow> run_next s' fs)"

text \<open>\<open>#clear\<close>, the release callback handed to a handler.\<close>

definition clear :: "PathReservations \<Rightarrow> Handler \<Rightarrow> (error + bool) \<times> PathReservations" where
  "clear s fn =
     (if fn \<notin> running s then (Inr False, s)
      else (case reservations s fn of
              None \<Rightarrow> (Inl InvalidReservation, s)
            | Some res \<Rightarrow>
                let st1 = foldl (clear_path fn) (queues s, []) (paths res);
                    st2 = foldl (clear_dir fn) st1 (dirs res);
                    s' = s\<lparr>queues := fst st2, running := running s - {fn}\<rparr>
                in run_next s' (snd st2)))"

text \<open>
  A history of the scheduler: calls of \<open>reserve\<close> and of release callbacks. A handler
  that is started returns before the next call, as the handlers of \<open>Unpack\<close> do, which
  release after the answer to an asynchronous \<open>lstat\<close>.
\<close>

datatype call = Reserve "string list" Handler | Release Handler

definition exec ::
  "bool \<Rightarrow> (string \<Rightarrow> string) \<Rightarrow> (string \<Rightarrow> string) \<Rightarrow> PathReservations \<Rightarrow> call \<Rightarrow> PathReservations" where
  "exec isWin normalizeUnicode toLowerCase s c =
     (case c of
        Reserve ps fn \<Rightarrow> snd (reserve isWin normalizeUnicode toLowerCase s ps fn)
      | Release fn \<Rightarrow> snd (clear s fn))"

definition exec_all ::
  "bool \<Rightarrow> (string \<Rightarrow> string) \<Rightarrow> (string \<Rightarrow> string) \<Rightarrow> call list \<Rightarrow> PathReservations" where
  "exec_all isWin normalizeUnicode toLowerCase cs =
     foldl (exec isWin normalizeUnicode toLowerCase) new_PathReservations cs"

text \<open>The handlers passed to \<open>reserve\<close> in a history, in order.\<close>

fun reserved_handlers :: "call list \<Rightarrow> Handler list" where
  "reserved_handlers [] = []"
| "reserved_handlers (Reserve ps fn # cs) = fn # reserved_handlers cs"
| "reserved_handlers (Release fn # cs) = reserved_handlers cs"

text \<open>\<open>fn\<close> holds an exclusive reservation on the canonical path \<open>p\<close>.\<close>

definition holds_path :: "PathReservations \<Rightarrow> Handler \<Rightarrow> string \<Rightarrow> bool" where
  "holds_path s fn p =
     (case reservations s fn of None \<Rightarrow> False | Some res \<Rightarrow> p \<in> set (paths res))"

text \<open>
  The invariant of the scheduler: every reservation has distinct directories and at least
  one path, and every running handler passes \<open>check\<close>.
\<close>

definition sched_inv :: "PathReservations \<Rightarrow> bool" where
  "sched_inv s =
     ((\<forall>f res. reservations s f = Some res \<longrightarrow> distinct (dirs res) \<and> paths res \<noteq> []) \<and>
      (\<forall>f \<in> running s. \<exists>res. reservations s f = Some res \<and>
          (\<forall>p \<in> set (paths res). path_first (queues s) f p) \<and>
          (\<forall>d \<in> set (dirs res). dir_first (queues s) f d)))"

definition example_calls :: "call list" where
  "example_calls = [Reserve [''a/b/''] 1, Reserve [''a//b''] 2]"

definition reuse_calls :: "call list" where
  "reuse_calls = [Reserve [''a''] 1, Reserve [''b''] 2, Reserve [''a''] 2]"

text \<open>
  How many times the handler \<open>f\<close> itself stands in the queue of \<open>p\<close>; a handler is
  never queued more often for a path than its reservation names that path.
\<close>

definition fn_count :: "(string \<rightharpoonup> slot list) \<Rightarrow> Handler \<Rightarrow> string \<Rightarrow> nat" where
  "fn_count qs f p = (case qs p of None \<Rightarrow> 0 | Some q \<Rightarrow> count_list q (Fn f))"

definition count_inv :: "PathReservations \<Rightarrow> bool" where
  "count_inv s =
     (\<forall>f p. fn_count (queues s) f p \<le>
        (case reservations s f of None \<Rightarrow> 0 | Some res \<Rightarrow> count_list (paths res) p))"

section \<open>Examples\<close>

definition example_dirname :: "string \<Rightarrow> string" where
  "example_dirname p =
     (let d = join_slash (butlast (split_slash p)) in if d = [] then ''/'' else d)"

definition example_host :: host where
  "example_host =
     \<lparr> stripAbsolutePath = (\<lambda>p. ([], p)), isAbsolute = (\<lambda>p. False),
       resolve = (\<lambda>ps. stripTrailingSlashes (join ps)), dirname = example_dirname,
       win32_root = (\<lambda>p. []), wc_encode = (\<lambda>p. p) \<rparr>"

definition example_Unpack :: Unpack where
  "example_Unpack =
     \<lparr> ENDED = False, CHECKED_CWD = True, PENDING = 0,
       uid = None, gid = None, preserveOwner = False,
       processUid = None, processGid = None, maxDepth = Some 3,
       forceChown = False, win32 = False, newer = False, keep = False, noMtime = False,
       preservePaths = False, unlink = False, cwd = ''/x'', strip = 0,
       dmode = 493, fmode = 420, noChmod = False, isWindows = False \<rparr>"

definition example_entry :: "EntryTypeName \<Rightarrow> string \<Rightarrow> ReadEntry" where
  "example_entry t p =
     \<lparr> entry_type = t, path = p, linkpath = None, mode = Some 320,
       entry_uid = None, entry_gid = None, mtime = None, atime = None,
       absolute = None, unsupported = False \<rparr>"


definition example_stats :: "st_kind \<Rightarrow> Stats" where
  "example_stats k = \<lparr> st_kind = k, st_nlink = 1, st_mode = 493, st_mtime = 0 \<rparr>"

text \<open>
  A file system in which the target is of kind \<open>k\<close>; a directory there is not empty, so
  \<open>rmdir\<close> fails with \<open>ENOTEMPTY\<close> and \<open>unlink\<close> with \<open>EISDIR\<close>.
\<close>

definition example_fs :: "st_kind \<Rightarrow> fs_answers" where
  "example_fs k =
     \<lparr> mkdir_answer = (\<lambda>p. None),
       lstat_answer = (\<lambda>p. Inr (example_stats k)),
       chmod_answer = (\<lambda>p. None),
       rmdir_answer = (\<lambda>p. Some (OtherError ''ENOTEMPTY'')),
       rename_answer = (\<lambda>p. None),
       unlink_answer = (\<lambda>p. if k = DirectoryKind then Some (OtherError ''EISDIR'') else None),
       random_hex = ''00'' \<rparr>"

text \<open>The entry \<open>./\<close> of an incremental archive, as \<open>[ONENTRY]\<close> hands it on.\<close>

definition root_entry :: ReadEntry where
  "root_entry = (example_entry GNUDumpDir ''./'')\<lparr>absolute := Some ''/x'', mode := Some 448\<rparr>"

definition dir_clash_entry :: ReadEntry where
  "dir_clash_entry = (example_entry File ''d'')\<lparr>absolute := Some ''/x/d''\<rparr>"

text \<open>A hard link deep in the archive to a file at its top, unpacked with \<open>strip: 2\<close>.\<close>

definition link_Unpack :: Unpack where
  "link_Unpack = example_Unpack\<lparr>strip := 2, maxDepth := Some 1\<rparr>"

definition link_entry :: ReadEntry where
  "link_entry = (example_entry Link ''a/b/c/d'')\<lparr>linkpath := Some ''x''\<rparr>"

definition twice_calls :: "call list" where
  "twice_calls = [Reserve [''a''] 1, Reserve [''a''] 1]"

text \<open>
  A file \<open>f\<close> in the root, and a file \<open>d/f\<close> whose parent \<open>[MKDIR]\<close> refuses because
  it is a symbolic link.
\<close>

definition file_entry :: ReadEntry where
  "file_entry = (example_entry File ''f'')\<lparr>absolute := Some ''/x/f''\<rparr>"

definition deep_file_entry :: ReadEntry where
  "deep_file_entry = (example_entry File ''d/f'')\<lparr>absolute := Some ''/x/d/f''\<rparr>"

definition symlink_parent_fs :: fs_answers where
  "symlink_parent_fs =
     (example_fs RegularFile)\<lparr>mkdir_answer := (\<lambda>p. Some (OtherError ''SymlinkError''))\<rparr>"

definition example_tree :: tree where
  "example_tree =
     \<lparr> names = [''/x'' \<mapsto> (1, DirectoryKind), ''/x/f'' \<mapsto> (7, RegularFile)],
       next_inode = 8 \<rparr>"

section \<open>Theorems\<close>

lemma urshift0_fix_iff: "a = urshift0 a \<longleftrightarrow> 0 \<le> a \<and> a < 2 ^ 32"
proof
  assume h: "a = urshift0 a"
  have "0 \<le> urshift0 a" "urshift0 a < 2 ^ 32"
    by (simp_all add: urshift0_def)
  with h show "0 \<le> a \<and> a < 2 ^ 32" by simp
next
  assume "0 \<le> a \<and> a < 2 ^ 32"
  then show "a = urshift0 a"
    by (simp add: urshift0_def)
qed

lemma uint32_first_valid:
  "uint32 a b c = (if is_uint32 a then a else if is_uint32 b then b else c)"
  by (cases a; cases b) (auto simp: uint32_def is_uint32_def urshift0_fix_iff)

text \<open>
  C7 (counterexample). With a configured uid of \<open>-1\<close> and an entry uid of \<open>5\<close> the code
  applies \<open>5\<close>; the first defined value coerced to 32 bits would be \<open>4294967295\<close>.
\<close>

theorem C7_first_defined_coerced_counterexample:
  "UID example_owner_Unpack example_owner_entry = Some 5 \<and>
   first_defined_coerced (uid example_owner_Unpack) (entry_uid example_owner_entry)
     (processUid example_owner_Unpack) = Some 4294967295 \<and>
   UID example_owner_Unpack example_owner_entry \<noteq>
     first_defined_coerced (uid example_owner_Unpack) (entry_uid example_owner_entry)
       (processUid example_owner_Unpack)"
  by (simp add: UID_def uint32_def urshift0_def first_defined_coerced_def
      example_owner_Unpack_def example_owner_entry_def)

text \<open>
  C7 (amended). The uid (gid) applied is the configured uid (gid) when that is an integer
  in \<open>[0, 2^32)\<close>, else the entry's uid (gid) when that is one, else the process's uid
  (gid) as it is; no value is ever coerced, and the owner \<open>[FILE]\<close> hands to chown is
  this pair.
\<close>

theorem C7_owner_first_valid_uint32:
  "UID u entry =
     (if is_uint32 (uid u) then uid u
      else if is_uint32 (entry_uid entry) then entry_uid entry else processUid u) \<and>
   GID u entry =
     (if is_uint32 (gid u) then gid u
      else if is_uint32 (entry_gid entry) then entry_gid entry else processGid u) \<and>
   (\<forall>i g. FILE_chown u entry = Some (i, g) \<longrightarrow>
      DOCHOWN u entry \<and> UID u entry = Some i \<and> GID u entry = Some g)"
  by (auto simp: UID_def GID_def uint32_first_valid FILE_chown_def
      split: option.splits if_splits)

theorem C7_owner_first_valid_uint32_witness:
  "UID example_owner_Unpack example_owner_entry = Some 5 \<and>
   GID example_owner_Unpack example_owner_entry = Some 6 \<and>
   FILE_chown example_owner_Unpack example_owner_entry = Some (5, 6)"
proof -
  have c: "FILE_chown example_owner_Unpack example_owner_entry = Some (5, 6)"
    by (simp add: FILE_chown_def DOCHOWN_def UID_def GID_def uint32_def urshift0_def
        example_owner_Unpack_def example_owner_entry_def)
  from C7_owner_first_valid_uint32 [of example_owner_Unpack example_owner_entry] c
  show ?thesis by blast
qed


subsection \<open>The scheduler's invariant\<close>

lemma path_first_reserve_path:
  "path_first qs g p \<Longrightarrow> path_first (reserve_path fn qs p') g p"
  by (auto simp: path_first_def reserve_path_def split: option.splits list.splits slot.splits)

lemma dir_first_reserve_path:
  "dir_first qs g d \<Longrightarrow> dir_first (reserve_path fn qs p') g d"
  by (auto simp: dir_first_def reserve_path_def split: option.splits list.splits slot.splits)

lemma path_first_reserve_dir:
  "path_first qs g p \<Longrightarrow> path_first (reserve_dir fn qs d') g p"
  by (auto simp: path_first_def reserve_dir_def split: option.splits list.splits slot.splits if_splits)

lemma dir_first_reserve_dir:
  "dir_first qs g d \<Longrightarrow> dir_first (reserve_dir fn qs d') g d"
  by (auto simp: dir_first_def reserve_dir_def set_add_def split: option.splits list.splits slot.splits if_splits)

lemma path_first_reserve_paths:
  "path_first qs g p \<Longrightarrow> path_first (foldl (reserve_path fn) qs ps) g p"
  by (induction ps arbitrary: qs) (simp_all add: path_first_reserve_path)

lemma dir_first_reserve_paths:
  "dir_first qs g d \<Longrightarrow> dir_first (foldl (reserve_path fn) qs ps) g d"
  by (induction ps arbitrary: qs) (simp_all add: dir_first_reserve_path)

lemma path_first_reserve_dirs:
  "path_first qs g p \<Longrightarrow> path_first (foldl (reserve_dir fn) qs ds) g p"
  by (induction ds arbitrary: qs) (simp_all add: path_first_reserve_dir)

lemma dir_first_reserve_dirs:
  "dir_first qs g d \<Longrightarrow> dir_first (foldl (reserve_dir fn) qs ds) g d"
  by (induction ds arbitrary: qs) (simp_all add: dir_first_reserve_dir)

lemma distinct_set_add: "distinct xs \<Longrightarrow> distinct (set_add xs x)"
  by (simp add: set_add_def)

lemma distinct_foldl_set_add: "distinct acc \<Longrightarrow> distinct (foldl set_add acc xs)"
  by (induction xs arbitrary: acc) (simp_all add: distinct_set_add)

lemma distinct_new_Set: "distinct (new_Set xs)"
  by (simp add: new_Set_def distinct_foldl_set_add)

lemma run_queues: "queues (snd (run s f)) = queues s"
  by (simp add: run_def split: sum.splits bool.splits)

lemma run_reservations: "reservations (snd (run s f)) = reservations s"
  by (simp add: run_def split: sum.splits bool.splits)

lemma run_running:
  "running (snd (run s f)) = running s \<or>
   (running (snd (run s f)) = insert f (running s) \<and> check s f = Inr True)"
  by (simp add: run_def split: sum.splits bool.splits)

lemma check_True:
  "check s f = Inr True \<Longrightarrow>
   \<exists>res. reservations s f = Some res \<and>
     (\<forall>p \<in> set (paths res). path_first (queues s) f p) \<and>
     (\<forall>d \<in> set (dirs res). dir_first (queues s) f d)"
  by (auto simp: check_def list_all_iff split: option.splits)

lemma sched_inv_run: "sched_inv s \<Longrightarrow> sched_inv (snd (run s f))"
  using run_running [of s f] check_True [of s f]
  unfolding sched_inv_def run_queues run_reservations
  by (metis insert_iff)

lemma sched_inv_run_next: "sched_inv s \<Longrightarrow> sched_inv (snd (run_next s fs))"
proof (induction fs arbitrary: s)
  case Nil
  then show ?case by simp
next
  case (Cons f fs)
  have i: "sched_inv (snd (run s f))" using Cons.prems by (rule sched_inv_run)
  show ?case
  proof (cases "run s f")
    case (Pair r s')
    with i have i': "sched_inv s'" by simp
    show ?thesis
    proof (cases r)
      case (Inl e)
      with Pair i' show ?thesis by simp
    next
      case (Inr b)
      with Pair Cons.IH [OF i'] show ?thesis by simp
    qed
  qed
qed


lemma clear_path_other: "p \<noteq> p' \<Longrightarrow> fst (clear_path f (qs, n) p') p = qs p"
  by (simp add: clear_path_def split: option.splits list.splits slot.splits)

lemma clear_dir_other: "d \<noteq> d' \<Longrightarrow> fst (clear_dir f (qs, n) d') d = qs d"
  by (simp add: clear_dir_def split: option.splits list.splits slot.splits)

lemma path_first_clear_path:
  "g \<noteq> f \<Longrightarrow> path_first qs g p \<Longrightarrow> path_first (fst (clear_path f (qs, n) p')) g p"
  by (auto simp: path_first_def clear_path_def split: option.splits list.splits slot.splits)

lemma dir_first_clear_path:
  "dir_first qs g d \<Longrightarrow> dir_first (fst (clear_path f (qs, n) p')) g d"
  by (auto simp: dir_first_def clear_path_def split: option.splits list.splits slot.splits)

lemma path_first_clear_dir:
  "path_first qs g p \<Longrightarrow> path_first (fst (clear_dir f (qs, n) d')) g p"
  by (auto simp: path_first_def clear_dir_def split: option.splits list.splits slot.splits)

lemma dir_first_clear_dir:
  "g \<noteq> f \<Longrightarrow> dir_first qs f d' \<Longrightarrow> dir_first qs g d \<Longrightarrow>
   dir_first (fst (clear_dir f (qs, n) d')) g d"
  by (auto simp: dir_first_def clear_dir_def length_Suc_conv
      split: option.splits list.splits slot.splits if_splits)

lemma path_first_clear_paths:
  "g \<noteq> f \<Longrightarrow> path_first (fst st) g p \<Longrightarrow>
   path_first (fst (foldl (clear_path f) st ps)) g p"
proof (induction ps arbitrary: st)
  case Nil
  then show ?case by simp
next
  case (Cons a ps)
  obtain qs n where st: "st = (qs, n)" by (cases st)
  from Cons.prems st have "path_first (fst (clear_path f st a)) g p"
    by (simp add: path_first_clear_path)
  with Cons.IH [OF Cons.prems(1)] show ?case by simp
qed

lemma dir_first_clear_paths:
  "dir_first (fst st) g d \<Longrightarrow> dir_first (fst (foldl (clear_path f) st ps)) g d"
proof (induction ps arbitrary: st)
  case Nil
  then show ?case by simp
next
  case (Cons a ps)
  obtain qs n where st: "st = (qs, n)" by (cases st)
  from Cons.prems st have "dir_first (fst (clear_path f st a)) g d"
    by (simp add: dir_first_clear_path)
  with Cons.IH show ?case by simp
qed

lemma path_first_clear_dirs:
  "path_first (fst st) g p \<Longrightarrow> path_first (fst (foldl (clear_dir f) st ds)) g p"
proof (induction ds arbitrary: st)
  case Nil
  then show ?case by simp
next
  case (Cons a ds)
  obtain qs n where st: "st = (qs, n)" by (cases st)
  from Cons.prems st have "path_first (fst (clear_dir f st a)) g p"
    by (simp add: path_first_clear_dir)
  with Cons.IH show ?case by simp
qed

lemma dir_first_cong: "qs d = qs' d \<Longrightarrow> dir_first qs f d = dir_first qs' f d"
  by (simp add: dir_first_def)

lemma dir_first_clear_dirs:
  "g \<noteq> f \<Longrightarrow> distinct ds \<Longrightarrow> \<forall>d' \<in> set ds. dir_first (fst st) f d' \<Longrightarrow>
   dir_first (fst st) g d \<Longrightarrow> dir_first (fst (foldl (clear_dir f) st ds)) g d"
proof (induction ds arbitrary: st)
  case Nil
  then show ?case by simp
next
  case (Cons a ds)
  obtain qs n where st: "st = (qs, n)" by (cases st)
  have g: "dir_first (fst (clear_dir f st a)) g d"
    using Cons.prems st by (simp add: dir_first_clear_dir)
  have r: "\<forall>d' \<in> set ds. dir_first (fst (clear_dir f st a)) f d'"
  proof
    fix d' assume m: "d' \<in> set ds"
    with Cons.prems(2) have ne: "d' \<noteq> a" by auto
    have "fst (clear_dir f st a) d' = fst st d'"
      using ne st by (simp add: clear_dir_other)
    moreover have "dir_first (fst st) f d'" using Cons.prems(3) m by simp
    ultimately show "dir_first (fst (clear_dir f st a)) f d'"
      using dir_first_cong by metis
  qed
  from Cons.prems(2) have dd: "distinct ds" by simp
  from Cons.IH [OF Cons.prems(1) dd r g] show ?case by simp
qed

lemma clear_not_running: "fn \<notin> running s \<Longrightarrow> clear s fn = (Inr False, s)"
  by (simp add: clear_def)

lemma sched_inv_clear: "sched_inv s \<Longrightarrow> sched_inv (snd (clear s fn))"
proof (cases "fn \<in> running s")
  case False
  assume "sched_inv s"
  with False show ?thesis by (simp add: clear_not_running)
next
  case True
  assume inv: "sched_inv s"
  from inv True obtain res where res: "reservations s fn = Some res"
    and pf: "\<forall>p \<in> set (paths res). path_first (queues s) fn p"
    and df: "\<forall>d \<in> set (dirs res). dir_first (queues s) fn d"
    unfolding sched_inv_def by blast
  from inv res have dd: "distinct (dirs res)" unfolding sched_inv_def by blast
  define st1 where "st1 = foldl (clear_path fn) (queues s, []) (paths res)"
  define st2 where "st2 = foldl (clear_dir fn) st1 (dirs res)"
  define s' where "s' = s\<lparr>queues := fst st2, running := running s - {fn}\<rparr>"
  have c: "clear s fn = run_next s' (snd st2)"
    using True res by (simp add: clear_def st1_def st2_def s'_def Let_def)
  have df1: "\<forall>d \<in> set (dirs res). dir_first (fst st1) fn d"
    using df unfolding st1_def by (simp add: dir_first_clear_paths)
  have A: "\<forall>f r. reservations s' f = Some r \<longrightarrow> distinct (dirs r) \<and> paths r \<noteq> []"
    using inv unfolding sched_inv_def by (simp add: s'_def)
  have B: "\<forall>g \<in> running s'. \<exists>res. reservations s' g = Some res \<and>
        (\<forall>p \<in> set (paths res). path_first (queues s') g p) \<and>
        (\<forall>d \<in> set (dirs res). dir_first (queues s') g d)"
  proof
    fix g assume "g \<in> running s'"
    then have gr: "g \<in> running s" and ne: "g \<noteq> fn" by (auto simp: s'_def)
    from inv gr obtain r where r: "reservations s g = Some r"
      and pg: "\<forall>p \<in> set (paths r). path_first (queues s) g p"
      and dg: "\<forall>d \<in> set (dirs r). dir_first (queues s) g d"
      unfolding sched_inv_def by blast
    have "\<forall>p \<in> set (paths r). path_first (fst st2) g p"
      using pg ne unfolding st2_def st1_def
      by (simp add: path_first_clear_dirs path_first_clear_paths)
    moreover have "\<forall>d \<in> set (dirs r). dir_first (fst st2) g d"
    proof
      fix d assume "d \<in> set (dirs r)"
      with dg have "dir_first (fst st1) g d"
        unfolding st1_def by (simp add: dir_first_clear_paths)
      with ne dd df1 show "dir_first (fst st2) g d"
        unfolding st2_def by (simp add: dir_first_clear_dirs)
    qed
    ultimately show "\<exists>res. reservations s' g = Some res \<and>
        (\<forall>p \<in> set (paths res). path_first (queues s') g p) \<and>
        (\<forall>d \<in> set (dirs res). dir_first (queues s') g d)"
      using r by (simp add: s'_def)
  qed
  from A B have "sched_inv s'" unfolding sched_inv_def by blast
  then show ?thesis unfolding c by (rule sched_inv_run_next)
qed


lemma run_next_reservations: "reservations (snd (run_next s fs)) = reservations s"
proof (induction fs arbitrary: s)
  case Nil
  then show ?case by simp
next
  case (Cons f fs)
  show ?case
  proof (cases "run s f")
    case (Pair r s')
    then have "reservations s' = reservations s"
      using run_reservations [of s f] by simp
    with Pair Cons.IH [of s'] show ?thesis by (cases r) simp_all
  qed
qed

lemma clear_reservations: "reservations (snd (clear s fn)) = reservations s"
  by (simp add: clear_def Let_def run_next_reservations split: option.splits)

lemma reserve_reservations:
  "dom (reservations (snd (reserve w nu lc s ps fn))) \<subseteq> insert fn (dom (reservations s))"
  by (auto simp: reserve_def Let_def run_reservations split: if_splits)

lemma sched_inv_running_dom: "sched_inv s \<Longrightarrow> running s \<subseteq> dom (reservations s)"
  unfolding sched_inv_def by blast

lemma sched_inv_reserve:
  assumes inv: "sched_inv s" and nr: "fn \<notin> running s"
  shows "sched_inv (snd (reserve w nu lc s ps fn))"
proof -
  define ps' where "ps' = (if w then [''win32 parallelization disabled''] else map (canonical nu lc) ps)"
  show ?thesis
  proof (cases "ps' = []")
    case True
    then show ?thesis using inv by (simp add: reserve_def ps'_def Let_def)
  next
    case False
    define ds where "ds = new_Set (concat (map getDirs ps'))"
    define s3 where "s3 = s\<lparr>reservations := (reservations s)(fn \<mapsto> \<lparr>paths = ps', dirs = ds\<rparr>),
        queues := foldl (reserve_dir fn) (foldl (reserve_path fn) (queues s) ps') ds\<rparr>"
    have r: "snd (reserve w nu lc s ps fn) = snd (run s3 fn)"
      using False by (simp add: reserve_def ps'_def [symmetric] Let_def s3_def ds_def)
    have A: "\<forall>f r. reservations s3 f = Some r \<longrightarrow> distinct (dirs r) \<and> paths r \<noteq> []"
      using inv False unfolding sched_inv_def
      by (auto simp: s3_def ds_def distinct_new_Set)
    have B: "\<forall>g \<in> running s3. \<exists>res. reservations s3 g = Some res \<and>
        (\<forall>p \<in> set (paths res). path_first (queues s3) g p) \<and>
        (\<forall>d \<in> set (dirs res). dir_first (queues s3) g d)"
    proof
      fix g assume "g \<in> running s3"
      then have gr: "g \<in> running s" by (simp add: s3_def)
      with nr have ne: "g \<noteq> fn" by auto
      from inv gr obtain r where r: "reservations s g = Some r"
        and pg: "\<forall>p \<in> set (paths r). path_first (queues s) g p"
        and dg: "\<forall>d \<in> set (dirs r). dir_first (queues s) g d"
        unfolding sched_inv_def by blast
      have "\<forall>p \<in> set (paths r). path_first (queues s3) g p"
        using pg by (simp add: s3_def path_first_reserve_dirs path_first_reserve_paths)
      moreover have "\<forall>d \<in> set (dirs r). dir_first (queues s3) g d"
        using dg by (simp add: s3_def dir_first_reserve_dirs dir_first_reserve_paths)
      ultimately show "\<exists>res. reservations s3 g = Some res \<and>
        (\<forall>p \<in> set (paths res). path_first (queues s3) g p) \<and>
        (\<forall>d \<in> set (dirs res). dir_first (queues s3) g d)"
        using r ne by (simp add: s3_def)
    qed
    from A B have "sched_inv s3" unfolding sched_inv_def by blast
    then show ?thesis unfolding r by (rule sched_inv_run)
  qed
qed

lemma reserved_handlers_append:
  "reserved_handlers (xs @ ys) = reserved_handlers xs @ reserved_handlers ys"
  by (induction xs rule: reserved_handlers.induct) simp_all

lemma sched_inv_new: "sched_inv new_PathReservations"
  by (simp add: sched_inv_def new_PathReservations_def)

lemma sched_inv_exec_all:
  "distinct (reserved_handlers cs) \<Longrightarrow>
   sched_inv (exec_all w nu lc cs) \<and>
   dom (reservations (exec_all w nu lc cs)) \<subseteq> set (reserved_handlers cs)"
proof (induction cs rule: rev_induct)
  case Nil
  then show ?case by (simp add: exec_all_def sched_inv_new) (simp add: new_PathReservations_def)
next
  case (snoc c cs)
  define s where "s = exec_all w nu lc cs"
  from snoc.prems have d: "distinct (reserved_handlers cs)"
    by (simp add: reserved_handlers_append)
  from snoc.IH [OF d] have inv: "sched_inv s"
    and dom: "dom (reservations s) \<subseteq> set (reserved_handlers cs)"
    by (simp_all add: s_def)
  have e: "exec_all w nu lc (cs @ [c]) = exec w nu lc s c"
    by (simp add: exec_all_def s_def)
  show ?case
  proof (cases c)
    case (Reserve ps fn)
    from snoc.prems Reserve have "fn \<notin> set (reserved_handlers cs)"
      by (simp add: reserved_handlers_append)
    with dom have nd: "fn \<notin> dom (reservations s)" by blast
    with sched_inv_running_dom [OF inv] have nr: "fn \<notin> running s" by blast
    have "sched_inv (snd (reserve w nu lc s ps fn))"
      using inv nr by (rule sched_inv_reserve)
    moreover have "dom (reservations (snd (reserve w nu lc s ps fn))) \<subseteq>
        set (reserved_handlers (cs @ [c]))"
      using reserve_reservations [of w nu lc s ps fn] dom Reserve
      by (auto simp: reserved_handlers_append)
    ultimately show ?thesis unfolding e by (simp add: exec_def Reserve)
  next
    case (Release fn)
    have "sched_inv (snd (clear s fn))" using inv by (rule sched_inv_clear)
    moreover have "dom (reservations (snd (clear s fn))) \<subseteq> set (reserved_handlers (cs @ [c]))"
      using dom Release by (simp add: clear_reservations reserved_handlers_append)
    ultimately show ?thesis unfolding e by (simp add: exec_def Release)
  qed
qed

lemma path_first_unique: "path_first qs f p \<Longrightarrow> path_first qs g p \<Longrightarrow> f = g"
  by (auto simp: path_first_def split: option.splits list.splits slot.splits)


text \<open>
  C1 (counterexample). \<open>reserve\<close> keys a reservation by its handler. When a handler that
  is running for \<open>b\<close> is passed to \<open>reserve\<close> again, for \<open>a\<close>, its reservation is
  replaced while it stays in the running set: handlers 1 and 2 then both run and both
  hold \<open>a\<close>.
\<close>

theorem C1_reused_handler_counterexample:
  "1 \<in> running (exec_all False (\<lambda>x. x) (\<lambda>x. x) reuse_calls) \<and>
   2 \<in> running (exec_all False (\<lambda>x. x) (\<lambda>x. x) reuse_calls) \<and>
   holds_path (exec_all False (\<lambda>x. x) (\<lambda>x. x) reuse_calls) 1 ''a'' \<and>
   holds_path (exec_all False (\<lambda>x. x) (\<lambda>x. x) reuse_calls) 2 ''a''"
  by code_simp

text \<open>
  C1 (amended). In every history of \<open>reserve\<close> and release calls in which each
  \<open>reserve\<close> call passes a handler of its own, on either platform and whatever
  \<open>normalizeUnicode\<close> and \<open>toLowerCase\<close> compute, two different handlers that hold an
  exclusive reservation on the same canonical path are never both in the running set.
  The history is arbitrary, so this holds at every moment.
\<close>

theorem C1_mutual_exclusion:
  assumes "distinct (reserved_handlers cs)"
    and "f \<noteq> g"
    and "holds_path (exec_all w nu lc cs) f p"
    and "holds_path (exec_all w nu lc cs) g p"
  shows "\<not> (f \<in> running (exec_all w nu lc cs) \<and> g \<in> running (exec_all w nu lc cs))"
proof
  define s where "s = exec_all w nu lc cs"
  assume "f \<in> running (exec_all w nu lc cs) \<and> g \<in> running (exec_all w nu lc cs)"
  then have rf: "f \<in> running s" and rg: "g \<in> running s" by (simp_all add: s_def)
  from sched_inv_exec_all [OF assms(1)] have inv: "sched_inv s" by (simp add: s_def)
  from inv rf assms(3) have "path_first (queues s) f p"
    unfolding sched_inv_def holds_path_def s_def by (auto split: option.splits)
  moreover from inv rg assms(4) have "path_first (queues s) g p"
    unfolding sched_inv_def holds_path_def s_def by (auto split: option.splits)
  ultimately have "f = g" by (rule path_first_unique)
  with assms(2) show False by simp
qed

theorem C1_mutual_exclusion_witness:
  "distinct (reserved_handlers example_calls) \<and> (1::nat) \<noteq> 2 \<and>
   holds_path (exec_all False (\<lambda>x. x) (\<lambda>x. x) example_calls) 1 ''a/b'' \<and>
   holds_path (exec_all False (\<lambda>x. x) (\<lambda>x. x) example_calls) 2 ''a/b'' \<and>
   \<not> (1 \<in> running (exec_all False (\<lambda>x. x) (\<lambda>x. x) example_calls) \<and>
      2 \<in> running (exec_all False (\<lambda>x. x) (\<lambda>x. x) example_calls))"
proof -
  have d: "distinct (reserved_handlers example_calls)"
    by (simp add: example_calls_def)
  have n: "(1::nat) \<noteq> 2" by simp
  have h1: "holds_path (exec_all False (\<lambda>x. x) (\<lambda>x. x) example_calls) 1 ''a/b''"
    by code_simp
  have h2: "holds_path (exec_all False (\<lambda>x. x) (\<lambda>x. x) example_calls) 2 ''a/b''"
    by code_simp
  from C1_mutual_exclusion [OF d n h1 h2] d n h1 h2 show ?thesis by blast
qed


subsection \<open>Release callbacks\<close>

lemma fn_count_reserve_path:
  "fn_count (reserve_path fn qs a) f p =
     fn_count qs f p + (if a = p \<and> f = fn then 1 else 0)"
  by (auto simp: fn_count_def reserve_path_def split: option.splits)

lemma fn_count_reserve_paths:
  "fn_count (foldl (reserve_path fn) qs ps) f p =
     fn_count qs f p + (if f = fn then count_list ps p else 0)"
  by (induction ps arbitrary: qs) (auto simp: fn_count_reserve_path)

lemma count_list_butlast_HSet:
  "q \<noteq> [] \<Longrightarrow> last q = HSet l \<Longrightarrow> count_list (butlast q) (Fn f) = count_list q (Fn f)"
  by (induction q) (auto split: if_splits)

lemma fn_count_reserve_dir: "fn_count (reserve_dir fn qs d) f p = fn_count qs f p"
  by (auto simp: fn_count_def reserve_dir_def count_list_butlast_HSet
      split: option.splits slot.splits)

lemma fn_count_reserve_dirs: "fn_count (foldl (reserve_dir fn) qs ds) f p = fn_count qs f p"
  by (induction ds arbitrary: qs) (simp_all add: fn_count_reserve_dir)

lemma fn_count_clear_path: "fn_count (fst (clear_path fn (qs, n) a)) f p \<le> fn_count qs f p"
  by (auto simp: fn_count_def clear_path_def split: option.splits list.splits slot.splits)

lemma fn_count_clear_dir: "fn_count (fst (clear_dir fn (qs, n) a)) f p \<le> fn_count qs f p"
  by (auto simp: fn_count_def clear_dir_def split: option.splits list.splits slot.splits)

lemma fn_count_clear_paths:
  "fn_count (fst (foldl (clear_path fn) st ps)) f p \<le> fn_count (fst st) f p"
proof (induction ps arbitrary: st)
  case Nil
  then show ?case by simp
next
  case (Cons a ps)
  obtain qs n where st: "st = (qs, n)" by (cases st)
  have "fn_count (fst (clear_path fn st a)) f p \<le> fn_count (fst st) f p"
    using st by (simp add: fn_count_clear_path)
  with Cons.IH [of "clear_path fn st a"] show ?case by simp
qed

lemma fn_count_clear_dirs:
  "fn_count (fst (foldl (clear_dir fn) st ds)) f p \<le> fn_count (fst st) f p"
proof (induction ds arbitrary: st)
  case Nil
  then show ?case by simp
next
  case (Cons a ds)
  obtain qs n where st: "st = (qs, n)" by (cases st)
  have "fn_count (fst (clear_dir fn st a)) f p \<le> fn_count (fst st) f p"
    using st by (simp add: fn_count_clear_dir)
  with Cons.IH [of "clear_dir fn st a"] show ?case by simp
qed

lemma run_next_queues: "queues (snd (run_next s fs)) = queues s"
proof (induction fs arbitrary: s)
  case Nil
  then show ?case by simp
next
  case (Cons f fs)
  show ?case
  proof (cases "run s f")
    case (Pair r s')
    then have "queues s' = queues s"
      using run_queues [of s f] by simp
    with Pair Cons.IH [of s'] show ?thesis by (cases r) simp_all
  qed
qed

lemma count_inv_clear: "count_inv s \<Longrightarrow> count_inv (snd (clear s fn))"
proof (cases "fn \<in> running s")
  case False
  assume "count_inv s"
  with False show ?thesis by (simp add: clear_not_running)
next
  case True
  assume inv: "count_inv s"
  show ?thesis
  proof (cases "reservations s fn")
    case None
    with True inv show ?thesis by (simp add: clear_def)
  next
    case (Some res)
    define st2 where "st2 = foldl (clear_dir fn) (foldl (clear_path fn) (queues s, []) (paths res)) (dirs res)"
    have q: "queues (snd (clear s fn)) = fst st2"
      using True Some by (simp add: clear_def Let_def run_next_queues st2_def)
    have le: "fn_count (fst st2) f p \<le> fn_count (queues s) f p" for f p
      unfolding st2_def
      using fn_count_clear_dirs [of fn "foldl (clear_path fn) (queues s, []) (paths res)" "dirs res" f p]
        fn_count_clear_paths [of fn "(queues s, [])" "paths res" f p]
      by simp
    show ?thesis
      unfolding count_inv_def q clear_reservations
      using inv le unfolding count_inv_def by (meson order_trans)
  qed
qed

lemma count_inv_reserve:
  assumes inv: "count_inv s" and fresh: "reservations s fn = None"
  shows "count_inv (snd (reserve w nu lc s ps fn))"
proof -
  define ps' where "ps' = (if w then [''win32 parallelization disabled''] else map (canonical nu lc) ps)"
  show ?thesis
  proof (cases "ps' = []")
    case True
    then show ?thesis using inv by (simp add: reserve_def ps'_def Let_def)
  next
    case False
    define ds where "ds = new_Set (concat (map getDirs ps'))"
    have q: "queues (snd (reserve w nu lc s ps fn)) =
        foldl (reserve_dir fn) (foldl (reserve_path fn) (queues s) ps') ds"
      using False by (simp add: reserve_def ps'_def [symmetric] Let_def ds_def run_queues)
    have r: "reservations (snd (reserve w nu lc s ps fn)) =
        (reservations s)(fn \<mapsto> \<lparr>paths = ps', dirs = ds\<rparr>)"
      using False by (simp add: reserve_def ps'_def [symmetric] Let_def ds_def run_reservations)
    have z: "fn_count (queues s) fn p = 0" for p
      using inv fresh unfolding count_inv_def by (metis le_zero_eq option.simps(4))
    show ?thesis
      unfolding count_inv_def q r
      using inv z unfolding count_inv_def
      by (auto simp: fn_count_reserve_dirs fn_count_reserve_paths)
  qed
qed


lemma count_inv_new: "count_inv new_PathReservations"
  by (simp add: count_inv_def new_PathReservations_def fn_count_def)

lemma count_inv_exec_all:
  "distinct (reserved_handlers cs) \<Longrightarrow> count_inv (exec_all w nu lc cs)"
proof (induction cs rule: rev_induct)
  case Nil
  then show ?case by (simp add: exec_all_def count_inv_new)
next
  case (snoc c cs)
  define s where "s = exec_all w nu lc cs"
  from snoc.prems have d: "distinct (reserved_handlers cs)"
    by (simp add: reserved_handlers_append)
  from snoc.IH [OF d] have inv: "count_inv s" by (simp add: s_def)
  from sched_inv_exec_all [OF d] have dom: "dom (reservations s) \<subseteq> set (reserved_handlers cs)"
    by (simp add: s_def)
  have e: "exec_all w nu lc (cs @ [c]) = exec w nu lc s c"
    by (simp add: exec_all_def s_def)
  show ?case
  proof (cases c)
    case (Reserve ps fn)
    from snoc.prems Reserve have "fn \<notin> set (reserved_handlers cs)"
      by (simp add: reserved_handlers_append)
    with dom have "reservations s fn = None" by blast
    with inv have "count_inv (snd (reserve w nu lc s ps fn))" by (rule count_inv_reserve)
    then show ?thesis unfolding e by (simp add: exec_def Reserve)
  next
    case (Release fn)
    have "count_inv (snd (clear s fn))" using inv by (rule count_inv_clear)
    then show ?thesis unfolding e by (simp add: exec_def Release)
  qed
qed

lemma not_path_first_clear_path:
  "\<not> path_first qs f p \<Longrightarrow> \<not> path_first (fst (clear_path f (qs, n) a)) f p"
  by (auto simp: path_first_def clear_path_def split: option.splits list.splits slot.splits)

lemma not_path_first_clear_paths:
  "\<not> path_first (fst st) f p \<Longrightarrow> \<not> path_first (fst (foldl (clear_path f) st ps)) f p"
proof (induction ps arbitrary: st)
  case Nil
  then show ?case by simp
next
  case (Cons a ps)
  obtain qs n where st: "st = (qs, n)" by (cases st)
  from Cons.prems st have "\<not> path_first (fst (clear_path f st a)) f p"
    by (simp add: not_path_first_clear_path)
  from Cons.IH [OF this] show ?case by simp
qed

lemma fn_count_zero_not_first: "fn_count qs f p = 0 \<Longrightarrow> \<not> path_first qs f p"
  by (auto simp: fn_count_def path_first_def split: option.splits list.splits slot.splits)

lemma fn_count_clear_path_first:
  "path_first qs f p \<Longrightarrow> Suc (fn_count (fst (clear_path f (qs, n) p)) f p) = fn_count qs f p"
  by (auto simp: fn_count_def path_first_def clear_path_def
      split: option.splits list.splits slot.splits)

lemma fn_count_cong: "qs p = qs' p \<Longrightarrow> fn_count qs f p = fn_count qs' f p"
  by (simp add: fn_count_def)

lemma clear_paths_consume:
  "fn_count (fst st) f p \<le> count_list ps p \<Longrightarrow>
   \<not> path_first (fst (foldl (clear_path f) st ps)) f p"
proof (induction ps arbitrary: st)
  case Nil
  then show ?case by (simp add: fn_count_zero_not_first)
next
  case (Cons a ps)
  obtain qs n where st: "st = (qs, n)" by (cases st)
  show ?case
  proof (cases "a = p")
    case False
    have "fst (clear_path f st a) p = fst st p"
      using False st by (simp add: clear_path_other)
    then have "fn_count (fst (clear_path f st a)) f p = fn_count (fst st) f p"
      by (rule fn_count_cong)
    with Cons.prems False have "fn_count (fst (clear_path f st a)) f p \<le> count_list ps p"
      by simp
    from Cons.IH [OF this] show ?thesis by simp
  next
    case True
    show ?thesis
    proof (cases "path_first (fst st) f p")
      case pf: True
      have "Suc (fn_count (fst (clear_path f st a)) f p) = fn_count (fst st) f p"
        using pf st True by (simp add: fn_count_clear_path_first)
      with Cons.prems True have "fn_count (fst (clear_path f st a)) f p \<le> count_list ps p"
        by simp
      from Cons.IH [OF this] show ?thesis by simp
    next
      case False
      then have "\<not> path_first (fst (foldl (clear_path f) st (a # ps))) f p"
        by (rule not_path_first_clear_paths)
      then show ?thesis .
    qed
  qed
qed

lemma clear_dirs_other:
  "p \<notin> set ds \<Longrightarrow> fst (foldl (clear_dir f) st ds) p = fst st p"
proof (induction ds arbitrary: st)
  case Nil
  then show ?case by simp
next
  case (Cons a ds)
  obtain qs n where st: "st = (qs, n)" by (cases st)
  from Cons.prems have "p \<noteq> a" "p \<notin> set ds" by auto
  with Cons.IH [of "clear_dir f st a"] st show ?case by (simp add: clear_dir_other)
qed

lemma path_first_cong: "qs p = qs' p \<Longrightarrow> path_first qs f p = path_first qs' f p"
  by (simp add: path_first_def)

lemma path_dir_first_excl: "path_first qs f p \<Longrightarrow> dir_first qs g p \<Longrightarrow> False"
  by (auto simp: path_first_def dir_first_def split: option.splits list.splits slot.splits)

lemma check_cong:
  "queues s' = queues s \<Longrightarrow> reservations s' = reservations s \<Longrightarrow> check s' f = check s f"
  by (simp add: check_def split: option.splits)

lemma run_next_not_started:
  "f \<notin> running s \<Longrightarrow> check s f \<noteq> Inr True \<Longrightarrow> f \<notin> running (snd (run_next s fs))"
proof (induction fs arbitrary: s)
  case Nil
  then show ?case by simp
next
  case (Cons h fs)
  show ?case
  proof (cases "run s h")
    case (Pair r s')
    have q: "queues s' = queues s" and rs: "reservations s' = reservations s"
      using Pair run_queues [of s h] run_reservations [of s h] by simp_all
    have c: "check s' f \<noteq> Inr True"
      using Cons.prems(2) check_cong [OF q rs] by simp
    have nr: "f \<notin> running s'"
      using run_running [of s h] Pair Cons.prems by auto
    show ?thesis
      using Pair Cons.IH [OF nr c] nr by (cases r) simp_all
  qed
qed

lemma released_not_running:
  assumes d: "distinct (reserved_handlers cs)"
  shows "fn \<notin> running (snd (clear (exec_all w nu lc cs) fn))"
proof (cases "fn \<in> running (exec_all w nu lc cs)")
  case False
  then show ?thesis by (simp add: clear_not_running)
next
  case True
  define s where "s = exec_all w nu lc cs"
  have inv: "sched_inv s" and cinv: "count_inv s"
    using sched_inv_exec_all [OF d] count_inv_exec_all [OF d] by (simp_all add: s_def)
  from True have run: "fn \<in> running s" by (simp add: s_def)
  from inv run obtain res where res: "reservations s fn = Some res"
    and pf: "\<forall>p \<in> set (paths res). path_first (queues s) fn p"
    and df: "\<forall>d \<in> set (dirs res). dir_first (queues s) fn d"
    unfolding sched_inv_def by blast
  from inv res have ne: "paths res \<noteq> []" unfolding sched_inv_def by blast
  define p where "p = hd (paths res)"
  from ne have pin: "p \<in> set (paths res)" by (simp add: p_def)
  have pnd: "p \<notin> set (dirs res)"
    using pf df pin path_dir_first_excl by blast
  define st1 where "st1 = foldl (clear_path fn) (queues s, []) (paths res)"
  define st2 where "st2 = foldl (clear_dir fn) st1 (dirs res)"
  define s' where "s' = s\<lparr>queues := fst st2, running := running s - {fn}\<rparr>"
  have c: "clear s fn = run_next s' (snd st2)"
    using run res by (simp add: clear_def st1_def st2_def s'_def Let_def)
  have "fn_count (queues s) fn p \<le> count_list (paths res) p"
    using cinv res unfolding count_inv_def by (metis option.simps(5))
  then have "\<not> path_first (fst st1) fn p"
    unfolding st1_def using clear_paths_consume [of "(queues s, [])" fn p "paths res"] by simp
  moreover have "fst st2 p = fst st1 p"
    unfolding st2_def using pnd by (rule clear_dirs_other)
  ultimately have "\<not> path_first (queues s') fn p"
    using path_first_cong [of "fst st2" p "fst st1" fn] by (simp add: s'_def)
  with pin res have "check s' fn \<noteq> Inr True"
    by (auto simp: check_def s'_def list_all_iff)
  moreover have "fn \<notin> running s'" by (simp add: s'_def)
  ultimately have "fn \<notin> running (snd (run_next s' (snd st2)))"
    by (simp add: run_next_not_started)
  then show ?thesis using c by (simp add: s_def)
qed


text \<open>
  C10 (counterexample). A handler passed to \<open>reserve\<close> twice for \<open>a\<close> stands twice in
  the queue of \<open>a\<close>; its first release restarts it at once, so it is running again and
  a second release returns true and empties the running set.
\<close>

theorem C10_second_release_counterexample:
  "1 \<in> running (snd (clear (exec_all False (\<lambda>x. x) (\<lambda>x. x) twice_calls) 1)) \<and>
   fst (clear (snd (clear (exec_all False (\<lambda>x. x) (\<lambda>x. x) twice_calls) 1)) 1) = Inr True \<and>
   running (snd (clear (snd (clear (exec_all False (\<lambda>x. x) (\<lambda>x. x) twice_calls) 1)) 1)) = {}"
  by code_simp

text \<open>
  C10 (amended). In any state of the scheduler, a release callback invoked while its
  handler is not in the running set returns false and leaves the scheduler (queues,
  reservations, running set, started handlers) as it was. In a history in which each
  \<open>reserve\<close> call passes a handler of its own, a handler is out of the running set after
  its release, so releasing it a second time is such a no-op.
\<close>

theorem C10_release_not_running_noop:
  "(fn \<notin> running s \<longrightarrow> clear s fn = (Inr False, s)) \<and>
   (distinct (reserved_handlers cs) \<longrightarrow>
      g \<notin> running (snd (clear (exec_all w nu lc cs) g)) \<and>
      clear (snd (clear (exec_all w nu lc cs) g)) g =
        (Inr False, snd (clear (exec_all w nu lc cs) g)))"
  using released_not_running [of cs g w nu lc] by (simp add: clear_not_running)

theorem C10_release_not_running_noop_witness:
  "2 \<notin> running (exec_all False (\<lambda>x. x) (\<lambda>x. x) example_calls) \<and>
   clear (exec_all False (\<lambda>x. x) (\<lambda>x. x) example_calls) 2 =
     (Inr False, exec_all False (\<lambda>x. x) (\<lambda>x. x) example_calls) \<and>
   distinct (reserved_handlers example_calls) \<and>
   1 \<in> running (exec_all False (\<lambda>x. x) (\<lambda>x. x) example_calls) \<and>
   1 \<notin> running (snd (clear (exec_all False (\<lambda>x. x) (\<lambda>x. x) example_calls) 1)) \<and>
   clear (snd (clear (exec_all False (\<lambda>x. x) (\<lambda>x. x) example_calls) 1)) 1 =
     (Inr False, snd (clear (exec_all False (\<lambda>x. x) (\<lambda>x. x) example_calls) 1))"
proof -
  have n: "2 \<notin> running (exec_all False (\<lambda>x. x) (\<lambda>x. x) example_calls)"
    by code_simp
  have r: "1 \<in> running (exec_all False (\<lambda>x. x) (\<lambda>x. x) example_calls)"
    by code_simp
  have d: "distinct (reserved_handlers example_calls)"
    by (simp add: example_calls_def)
  from C10_release_not_running_noop
    [of 2 "exec_all False (\<lambda>x. x) (\<lambda>x. x) example_calls" example_calls 1 False "\<lambda>x. x" "\<lambda>x. x"]
    n r d
  show ?thesis by blast
qed


subsection \<open>The ancestor list \<open>getDirs\<close>\<close>

lemma split_slash_ne: "split_slash p \<noteq> []"
  by (induction p) simp_all

lemma join_split: "join_slash (split_slash p) = p"
proof (induction p)
  case Nil
  then show ?case by simp
next
  case (Cons c cs)
  obtain w ws where s: "split_slash cs = w # ws"
    using split_slash_ne [of cs] by (cases "split_slash cs") auto
  with Cons show ?case by (cases ws) auto
qed

lemma join_slash_append:
  "xs \<noteq> [] \<Longrightarrow> ys \<noteq> [] \<Longrightarrow> join_slash (xs @ ys) = join_slash xs @ CHR ''/'' # join_slash ys"
  by (induction xs rule: join_slash.induct) (auto simp: neq_Nil_conv)

lemma split_slash_noslash: "CHR ''/'' \<notin> set w \<Longrightarrow> split_slash w = [w]"
  by (induction w) auto

lemma split_slash_append:
  "split_slash (a @ CHR ''/'' # b) = split_slash a @ split_slash b"
proof (induction a)
  case Nil
  then show ?case by simp
next
  case (Cons c cs)
  obtain w ws where s: "split_slash cs = w # ws"
    using split_slash_ne [of cs] by (cases "split_slash cs") auto
  with Cons show ?case by auto
qed

lemma split_join:
  "xs \<noteq> [] \<Longrightarrow> \<forall>x \<in> set xs. CHR ''/'' \<notin> set x \<Longrightarrow> split_slash (join_slash xs) = xs"
proof (induction xs rule: join_slash.induct)
  case 1
  then show ?case by simp
next
  case (2 x)
  then show ?case by (simp add: split_slash_noslash)
next
  case (3 x y ys)
  then show ?case by (simp add: split_slash_append split_slash_noslash)
qed


lemma plain_simps:
  "plain x \<Longrightarrow> x \<noteq> []" "plain x \<Longrightarrow> x \<noteq> ''.''" "plain x \<Longrightarrow> x \<noteq> ''..''"
  "plain x \<Longrightarrow> CHR ''/'' \<notin> set x"
  by (simp_all add: plain_def)

text \<open>Segments that survive normalization of a relative path: \<open>..\<close> segments, then plain ones.\<close>

lemma normal_segs_Nil: "normal_segs []"
  by (simp add: normal_segs_def)

lemma normal_segs_snoc:
  "normal_segs (xs @ [x]) \<longleftrightarrow>
     normal_segs xs \<and> (plain x \<or> (x = ''..'' \<and> (\<forall>y \<in> set xs. y = ''..'')))"
proof (induction xs)
  case Nil
  then show ?case by (auto simp: normal_segs_def plain_def)
next
  case (Cons a xs)
  show ?case
  proof (cases "a = ''..''")
    case True
    with Cons show ?thesis by (simp add: normal_segs_def)
  next
    case False
    then show ?thesis by (auto simp: normal_segs_def plain_def)
  qed
qed

lemma normal_segs_noslash: "normal_segs xs \<Longrightarrow> x \<in> set xs \<Longrightarrow> CHR ''/'' \<notin> set x \<and> x \<noteq> []"
proof (induction xs)
  case Nil
  then show ?case by simp
next
  case (Cons a xs)
  show ?case
  proof (cases "a = ''..''")
    case True
    with Cons show ?thesis by (auto simp: normal_segs_def)
  next
    case False
    with Cons.prems show ?thesis by (auto simp: normal_segs_def plain_def list_all_iff)
  qed
qed

lemma normal_segs_take: "normal_segs xs \<Longrightarrow> normal_segs (take k xs)"
proof (induction xs rule: rev_induct)
  case Nil
  then show ?case by simp
next
  case (snoc x xs)
  show ?case
  proof (cases "k \<le> length xs")
    case True
    with snoc show ?thesis by (simp add: normal_segs_snoc)
  next
    case False
    with snoc.prems show ?thesis by simp
  qed
qed

lemma normalize_steps_normal:
  "normal_segs (acc @ xs) \<Longrightarrow> foldl (normalize_step True) acc xs = acc @ xs"
proof (induction xs arbitrary: acc)
  case Nil
  then show ?case by simp
next
  case (Cons x xs)
  from Cons.prems have n: "normal_segs ((acc @ [x]) @ xs)" by simp
  have "normal_segs (take (Suc (length acc)) ((acc @ [x]) @ xs))"
    using n by (rule normal_segs_take)
  then have "normal_segs (acc @ [x])" by simp
  then have "normalize_step True acc x = acc @ [x]"
    by (auto simp: normalize_step_def normal_segs_snoc plain_def)
  with Cons.IH [OF n] show ?case by simp
qed

lemma normalize_steps_plain:
  "list_all plain xs \<Longrightarrow> foldl (normalize_step b) acc xs = acc @ xs"
proof (induction xs arbitrary: acc)
  case Nil
  then show ?case by simp
next
  case (Cons x xs)
  then have "normalize_step b acc x = acc @ [x]"
    by (auto simp: normalize_step_def plain_def)
  with Cons show ?case by simp
qed

lemma join_slash_Nil_iff: "(\<forall>x \<in> set xs. x \<noteq> []) \<Longrightarrow> join_slash xs = [] \<longleftrightarrow> xs = []"
  by (induction xs rule: join_slash.induct) auto

lemma hd_join_slash: "xs \<noteq> [] \<Longrightarrow> hd xs \<noteq> [] \<Longrightarrow> hd (join_slash xs) = hd (hd xs)"
  by (induction xs rule: join_slash.induct) auto

lemma join_slash_last_ne: "xs \<noteq> [] \<Longrightarrow> last xs \<noteq> [] \<Longrightarrow> join_slash xs \<noteq> []"
  by (induction xs rule: join_slash.induct) auto

lemma last_join_slash: "xs \<noteq> [] \<Longrightarrow> last xs \<noteq> [] \<Longrightarrow> last (join_slash xs) = last (last xs)"
proof (induction xs rule: join_slash.induct)
  case 1
  then show ?case by simp
next
  case (2 x)
  then show ?case by simp
next
  case (3 x y ys)
  then have "join_slash (y # ys) \<noteq> []" using join_slash_last_ne [of "y # ys"] by simp
  with 3 show ?case by simp
qed

lemma normalize_relative:
  assumes n: "normal_segs xs" and ne: "xs \<noteq> []"
  shows "posix_normalize (join_slash xs) = join_slash xs"
proof -
  have ns: "\<forall>x \<in> set xs. CHR ''/'' \<notin> set x" and nn: "\<forall>x \<in> set xs. x \<noteq> []"
    using normal_segs_noslash [OF n] by blast+
  have j: "join_slash xs \<noteq> []" using nn ne by (simp add: join_slash_Nil_iff)
  have h: "hd (join_slash xs) \<noteq> CHR ''/''"
  proof -
    have "hd xs \<in> set xs" using ne by simp
    with ns nn have "hd xs \<noteq> []" "CHR ''/'' \<notin> set (hd xs)" by blast+
    then have "hd (hd xs) \<noteq> CHR ''/''" by (cases "hd xs") auto
    with ne \<open>hd xs \<noteq> []\<close> show ?thesis by (simp add: hd_join_slash)
  qed
  have l: "last (join_slash xs) \<noteq> CHR ''/''"
  proof -
    have "last xs \<in> set xs" using ne by simp
    with ns nn have a: "last xs \<noteq> []" "CHR ''/'' \<notin> set (last xs)" by blast+
    then have "last (last xs) \<in> set (last xs)" by simp
    with a have "last (last xs) \<noteq> CHR ''/''" by metis
    with ne a show ?thesis by (simp add: last_join_slash)
  qed
  have "normalizeString (join_slash xs) True = join_slash xs"
    using normalize_steps_normal [of "[]" xs] n ne ns
    by (simp add: normalizeString_def split_join)
  with j h l show ?thesis by (simp add: posix_normalize_def Let_def)
qed

lemma normalize_absolute:
  assumes n: "list_all plain xs" and ne: "xs \<noteq> []"
  shows "posix_normalize (CHR ''/'' # join_slash xs) = CHR ''/'' # join_slash xs"
    and "posix_normalize (CHR ''/'' # CHR ''/'' # join_slash xs) = CHR ''/'' # join_slash xs"
proof -
  have ns: "\<forall>x \<in> set xs. CHR ''/'' \<notin> set x" and nn: "\<forall>x \<in> set xs. x \<noteq> []"
    using n by (auto simp: list_all_iff plain_def)
  have j: "join_slash xs \<noteq> []" using nn ne by (simp add: join_slash_Nil_iff)
  have l: "last (join_slash xs) \<noteq> CHR ''/''"
  proof -
    have "last xs \<in> set xs" using ne by simp
    with ns nn have a: "last xs \<noteq> []" "CHR ''/'' \<notin> set (last xs)" by blast+
    then have "last (last xs) \<in> set (last xs)" by simp
    with a have "last (last xs) \<noteq> CHR ''/''" by metis
    with ne a show ?thesis by (simp add: last_join_slash)
  qed
  have s: "split_slash (join_slash xs) = xs" using ne ns by (rule split_join)
  have f: "foldl (normalize_step False) [] xs = xs"
    using normalize_steps_plain [OF n, of False "[]"] by simp
  have "normalizeString (CHR ''/'' # join_slash xs) False = join_slash xs"
    by (simp add: normalizeString_def s normalize_step_def f)
  with j l show "posix_normalize (CHR ''/'' # join_slash xs) = CHR ''/'' # join_slash xs"
    by (simp add: posix_normalize_def Let_def)
  have "normalizeString (CHR ''/'' # CHR ''/'' # join_slash xs) False = join_slash xs"
    by (simp add: normalizeString_def s normalize_step_def f)
  with j l show "posix_normalize (CHR ''/'' # CHR ''/'' # join_slash xs) = CHR ''/'' # join_slash xs"
    by (simp add: posix_normalize_def Let_def)
qed


lemma join_two: "a \<noteq> [] \<Longrightarrow> b \<noteq> [] \<Longrightarrow> join [a, b] = posix_normalize (a @ CHR ''/'' # b)"
  by (simp add: join_def)

lemma getDirs_steps_relative:
  "normal_segs xs \<Longrightarrow> foldl getDirs_step [] xs = map join_slash (tl (prefixes xs))"
proof (induction xs rule: rev_induct)
  case Nil
  then show ?case by simp
next
  case (snoc x xs)
  from snoc.prems have n: "normal_segs xs" by (simp add: normal_segs_snoc)
  have xne: "x \<noteq> []"
    using normal_segs_noslash [OF snoc.prems, of x] by simp
  note ih = snoc.IH [OF n]
  show ?case
  proof (cases "xs = []")
    case True
    with xne show ?thesis by (simp add: getDirs_step_def)
  next
    case False
    have pne: "tl (prefixes xs) \<noteq> []" using False by (cases xs) simp_all
    have "last (tl (prefixes xs)) = last (prefixes xs)"
      using pne by (simp add: last_tl)
    then have l: "last (map join_slash (tl (prefixes xs))) = join_slash xs"
      using pne by (simp add: last_map)
    have jne: "join_slash xs \<noteq> []"
      using normal_segs_noslash [OF n] False by (simp add: join_slash_Nil_iff)
    have "join [join_slash xs, x] = posix_normalize (join_slash (xs @ [x]))"
      using jne xne False by (simp add: join_two join_slash_append)
    also have "\<dots> = join_slash (xs @ [x])"
      using snoc.prems by (simp add: normalize_relative)
    finally have j: "join [join_slash xs, x] = join_slash (xs @ [x])" .
    have jne2: "join_slash (xs @ [x]) \<noteq> []"
      using normal_segs_noslash [OF snoc.prems] by (simp add: join_slash_Nil_iff)
    have "getDirs_step (map join_slash (tl (prefixes xs))) x =
        map join_slash (tl (prefixes xs)) @ [join_slash (xs @ [x])]"
      using pne l j jne2 by (simp add: getDirs_step_def Let_def)
    moreover have "tl (prefixes (xs @ [x])) = tl (prefixes xs) @ [xs @ [x]]"
      by (cases xs) simp_all
    ultimately show ?thesis using ih by simp
  qed
qed

lemma getDirs_steps_absolute:
  "list_all plain ys \<Longrightarrow>
   foldl getDirs_step [''/''] ys = map (\<lambda>zs. CHR ''/'' # join_slash zs) (prefixes ys)"
proof (induction ys rule: rev_induct)
  case Nil
  then show ?case by simp
next
  case (snoc y ys)
  from snoc.prems have n: "list_all plain ys" and py: "plain y" by simp_all
  note ih = snoc.IH [OF n]
  have yne: "y \<noteq> []" using py by (simp add: plain_def)
  have l: "last (map (\<lambda>zs. CHR ''/'' # join_slash zs) (prefixes ys)) = CHR ''/'' # join_slash ys"
    by (simp add: last_map)
  have j: "join [CHR ''/'' # join_slash ys, y] = CHR ''/'' # join_slash (ys @ [y])"
  proof (cases "ys = []")
    case True
    have "join [''/'', y] = posix_normalize (CHR ''/'' # CHR ''/'' # join_slash [y])"
      using yne by (simp add: join_two)
    also have "\<dots> = CHR ''/'' # join_slash [y]"
      using py by (intro normalize_absolute(2)) simp_all
    finally show ?thesis using True by simp
  next
    case False
    have "join [CHR ''/'' # join_slash ys, y] = posix_normalize (CHR ''/'' # join_slash (ys @ [y]))"
      using yne False by (simp add: join_two join_slash_append)
    also have "\<dots> = CHR ''/'' # join_slash (ys @ [y])"
      using snoc.prems by (simp add: normalize_absolute(1))
    finally show ?thesis .
  qed
  have "getDirs_step (map (\<lambda>zs. CHR ''/'' # join_slash zs) (prefixes ys)) y =
      map (\<lambda>zs. CHR ''/'' # join_slash zs) (prefixes ys) @ [CHR ''/'' # join_slash (ys @ [y])]"
    using l j by (simp add: getDirs_step_def Let_def)
  with ih show ?case by simp
qed


lemma strict_prefix_join_slash:
  assumes "strict_prefix as bs" and "as \<noteq> []"
  shows "strict_prefix (join_slash as) (join_slash bs)"
proof -
  from assms(1) obtain cs where bs: "bs = as @ cs" and cs: "cs \<noteq> []"
    by (auto simp: strict_prefix_def prefix_def)
  have "join_slash bs = join_slash as @ CHR ''/'' # join_slash cs"
    using assms(2) cs by (simp add: bs join_slash_append)
  then show ?thesis by (simp add: strict_prefix_def prefix_def)
qed

lemma strict_prefix_slash_join_slash:
  assumes "strict_prefix as bs" and "\<forall>x \<in> set bs. x \<noteq> []"
  shows "strict_prefix (CHR ''/'' # join_slash as) (CHR ''/'' # join_slash bs)"
proof (cases "as = []")
  case True
  from assms(1) True have "bs \<noteq> []" by auto
  with assms(2) have "join_slash bs \<noteq> []" by (simp add: join_slash_Nil_iff)
  with True show ?thesis by (simp add: strict_prefix_def)
next
  case False
  with assms(1) have "strict_prefix (join_slash as) (join_slash bs)"
    by (rule strict_prefix_join_slash)
  then show ?thesis by (simp add: strict_prefix_def)
qed

lemma sorted_prefixes: "sorted_wrt strict_prefix (prefixes xs)"
proof (induction xs rule: rev_induct)
  case Nil
  then show ?case by simp
next
  case (snoc x xs)
  have "\<forall>a \<in> set (prefixes xs). strict_prefix a (xs @ [x])"
    by (auto simp: strict_prefix_def prefix_def)
  with snoc show ?case by (simp add: sorted_wrt_append)
qed

lemma sorted_wrt_tl: "sorted_wrt P xs \<Longrightarrow> sorted_wrt P (tl xs)"
  by (cases xs) simp_all

lemma sorted_strict_prefix_distinct: "sorted_wrt strict_prefix xs \<Longrightarrow> distinct xs"
  by (induction xs) auto

lemma set_tl_prefixes: "zs \<in> set (tl (prefixes xs)) \<longleftrightarrow> prefix zs xs \<and> zs \<noteq> []"
  by (cases xs) (auto simp: prefix_Cons image_iff)

lemma getDirs_relative:
  assumes n: "normal_segs (split_slash p)" and h: "\<not> (p \<noteq> [] \<and> hd p = CHR ''/'')"
  shows "dirs_ok p"
proof -
  define segs where "segs = split_slash p"
  define B where "B = butlast segs"
  have sne: "segs \<noteq> []" by (simp add: segs_def split_slash_ne)
  have segs: "segs = B @ [last segs]" using sne by (simp add: B_def)
  have p: "p = join_slash segs" by (simp add: segs_def join_split)
  have nn: "\<forall>x \<in> set segs. x \<noteq> [] \<and> CHR ''/'' \<notin> set x"
    using normal_segs_noslash [OF n] by (simp add: segs_def)
  have nB: "normal_segs B"
    using normal_segs_take [OF n, of "length segs - 1"] by (simp add: B_def segs_def butlast_conv_take)
  have d: "getDirs p = map join_slash (tl (prefixes B))"
    using getDirs_steps_relative [OF nB] by (simp add: getDirs_def B_def segs_def)
  have st: "strict_prefix (join_slash zs) p" if "zs \<in> set (tl (prefixes B))" for zs
  proof -
    from that have "prefix zs B" "zs \<noteq> []" by (simp_all add: set_tl_prefixes)
    then obtain ys where "B = zs @ ys" by (auto simp: prefix_def)
    with segs have "segs = zs @ (ys @ [last segs])" by simp
    then have "strict_prefix zs segs"
      by (metis append_is_Nil_conv not_Cons_self2 prefixI self_append_conv strict_prefix_def)
    with \<open>zs \<noteq> []\<close> show ?thesis unfolding p by (simp add: strict_prefix_join_slash)
  qed
  have s: "sorted_wrt strict_prefix (getDirs p)"
  proof -
    have "sorted_wrt strict_prefix (tl (prefixes B))"
      using sorted_prefixes by (rule sorted_wrt_tl)
    then have "sorted_wrt (\<lambda>a b. strict_prefix (join_slash a) (join_slash b)) (tl (prefixes B))"
    proof (rule sorted_wrt_mono_rel [rotated])
      fix a b assume "a \<in> set (tl (prefixes B))" "b \<in> set (tl (prefixes B))" "strict_prefix a b"
      then show "strict_prefix (join_slash a) (join_slash b)"
        by (simp add: set_tl_prefixes strict_prefix_join_slash)
    qed
    then show ?thesis by (simp add: d sorted_wrt_map)
  qed
  have r: "''/'' \<notin> set (getDirs p)"
  proof
    assume "''/'' \<in> set (getDirs p)"
    then obtain zs where zs: "zs \<in> set (tl (prefixes B))" and e: "join_slash zs = ''/''"
      by (auto simp: d)
    from zs have pz: "prefix zs B" and zne: "zs \<noteq> []" by (simp_all add: set_tl_prefixes)
    then have "hd zs \<in> set segs" using segs
      by (metis Un_iff hd_in_set prefix_def set_append)
    with nn have "hd zs \<noteq> []" "CHR ''/'' \<notin> set (hd zs)" by blast+
    then have "hd (hd zs) \<noteq> CHR ''/''" by (cases "hd zs") auto
    with zne \<open>hd zs \<noteq> []\<close> have "hd (join_slash zs) \<noteq> CHR ''/''" by (simp add: hd_join_slash)
    with e show False by simp
  qed
  have hp: "hd p \<noteq> CHR ''/''"
  proof -
    have "hd segs \<noteq> []" using nn sne by simp
    then have "p \<noteq> []" unfolding p using sne by (cases segs rule: join_slash.cases) auto
    with h show ?thesis by simp
  qed
  have e: "hd (getDirs p) = hd (split_slash p) \<and>
      p = (if last (getDirs p) = ''/'' then [] else last (getDirs p)) @
               CHR ''/'' # last (split_slash p)" if ne: "getDirs p \<noteq> []"
  proof -
    from ne have bne: "B \<noteq> []" by (auto simp: d)
    then obtain b bs where b: "B = b # bs" by (cases B) auto
    have "prefixes bs = [] # tl (prefixes bs)" by (cases bs) simp_all
    then have "hd (map (join_slash \<circ> (#) b) (prefixes bs)) = b"
      by (metis comp_apply join_slash.simps(2) list.map_sel(1) list.sel(1) list.distinct(1))
    then have h1: "hd (getDirs p) = b" by (simp add: d b)
    have "hd segs = b" using segs b by (metis append_Cons list.sel(1))
    then have h2: "hd (split_slash p) = b" by (simp add: segs_def)
    have tne: "tl (prefixes B) \<noteq> []" by (simp add: b)
    have "last (tl (prefixes B)) = B" using tne by (simp add: last_tl)
    then have l: "last (getDirs p) = join_slash B" using tne by (simp add: d last_map)
    have "p = join_slash B @ CHR ''/'' # last segs"
      using bne segs by (metis p join_slash_append join_slash.simps(2) not_Cons_self2)
    moreover have "last (getDirs p) \<noteq> ''/''" using r ne last_in_set by metis
    ultimately show ?thesis using h1 h2 l by (simp add: segs_def)
  qed
  have len: "length (getDirs p) = length (split_slash p) - 1"
    by (simp add: d B_def segs_def)
  show ?thesis
    unfolding dirs_ok_def
    using s sorted_strict_prefix_distinct [OF s] st r hp e len by (auto simp: d)
qed


lemma split_slash_noslash_all: "w \<in> set (split_slash p) \<Longrightarrow> CHR ''/'' \<notin> set w"
proof (induction p arbitrary: w)
  case Nil
  then show ?case by simp
next
  case (Cons c cs)
  obtain v vs where s: "split_slash cs = v # vs"
    using split_slash_ne [of cs] by (cases "split_slash cs") auto
  with Cons show ?case by (auto split: if_splits)
qed

lemma getDirs_absolute:
  assumes n: "list_all plain (tl (split_slash p))" and h: "p \<noteq> []" "hd p = CHR ''/''"
  shows "dirs_ok p"
proof -
  from h obtain rest where pr: "p = CHR ''/'' # rest" by (cases p) auto
  define segs where "segs = split_slash rest"
  define B where "B = butlast segs"
  have sp: "split_slash p = [] # segs" by (simp add: pr segs_def)
  have sne: "segs \<noteq> []" by (simp add: segs_def split_slash_ne)
  have segs: "segs = B @ [last segs]" using sne by (simp add: B_def)
  have pl: "list_all plain segs" using n by (simp add: sp)
  have nn: "\<forall>x \<in> set segs. x \<noteq> []" using pl by (auto simp: list_all_iff plain_def)
  have p: "p = CHR ''/'' # join_slash segs" by (simp add: pr segs_def join_split)
  have pB: "list_all plain B" using pl segs by (metis list_all_append)
  have d: "getDirs p = map (\<lambda>zs. CHR ''/'' # join_slash zs) (prefixes B)"
    using getDirs_steps_absolute [OF pB] sne
    by (simp add: getDirs_def sp B_def getDirs_step_def)
  have st: "strict_prefix (CHR ''/'' # join_slash zs) p" if "zs \<in> set (prefixes B)" for zs
  proof -
    from that obtain ys where "B = zs @ ys" by (auto simp: prefix_def)
    with segs have "segs = zs @ (ys @ [last segs])" by simp
    then have "strict_prefix zs segs"
      by (metis append_is_Nil_conv not_Cons_self2 prefixI self_append_conv strict_prefix_def)
    then show ?thesis unfolding p using nn by (rule strict_prefix_slash_join_slash)
  qed
  have s: "sorted_wrt strict_prefix (getDirs p)"
  proof -
    have "sorted_wrt (\<lambda>a b. strict_prefix (CHR ''/'' # join_slash a) (CHR ''/'' # join_slash b))
        (prefixes B)"
      using sorted_prefixes
    proof (rule sorted_wrt_mono_rel [rotated])
      fix a b assume "a \<in> set (prefixes B)" and b: "b \<in> set (prefixes B)" and ab: "strict_prefix a b"
      from b have "set b \<subseteq> set segs" using segs by (auto simp: prefix_def) (metis Un_iff set_append)
      with nn have "\<forall>x \<in> set b. x \<noteq> []" by blast
      with ab show "strict_prefix (CHR ''/'' # join_slash a) (CHR ''/'' # join_slash b)"
        by (rule strict_prefix_slash_join_slash)
    qed
    then show ?thesis by (simp add: d sorted_wrt_map)
  qed
  have hdp: "prefixes B = [] # tl (prefixes B)" by (cases B) simp_all
  have r: "''/'' \<in> set (getDirs p)"
    using hdp by (metis d join_slash.simps(1) list.set_intros(1) list.simps(9))
  have h1: "hd (getDirs p) = ''/''"
    using hdp by (metis d join_slash.simps(1) list.sel(1) list.simps(9))
  have l: "last (getDirs p) = CHR ''/'' # join_slash B" by (simp add: d last_map)
  have e: "p = (if last (getDirs p) = ''/'' then [] else last (getDirs p)) @
               CHR ''/'' # last (split_slash p)"
  proof (cases "B = []")
    case True
    with segs have "segs = [last segs]" by simp
    then have "join_slash segs = last segs" by (metis join_slash.simps(2))
    with True l p sp sne show ?thesis by simp
  next
    case False
    have "\<forall>x \<in> set B. x \<noteq> []" using nn segs by (metis Un_iff set_append)
    then have "join_slash B \<noteq> []" using False by (simp add: join_slash_Nil_iff)
    moreover have "join_slash segs = join_slash B @ CHR ''/'' # last segs"
      using False segs by (metis join_slash_append join_slash.simps(2) not_Cons_self2)
    ultimately show ?thesis using l p sp sne by simp
  qed
  have len: "length (getDirs p) = length (split_slash p) - 1"
    using sne by (cases segs) (simp_all add: d B_def sp)
  have ne: "getDirs p \<noteq> []" by (simp add: d)
  show ?thesis
    unfolding dirs_ok_def
    using s sorted_strict_prefix_distinct [OF s] st r h h1 e len ne by (auto simp: d)
qed

lemma getDirs_normal: "normal_path p \<Longrightarrow> p \<noteq> ''/'' \<Longrightarrow> dirs_ok p"
proof -
  assume n: "normal_path p" and r: "p \<noteq> ''/''"
  show ?thesis
  proof (cases "p = ''.''")
    case True
    then show ?thesis by (simp add: dirs_ok_def getDirs_def)
  next
    case False
    show ?thesis
    proof (cases "p \<noteq> [] \<and> hd p = CHR ''/''")
      case True
      with n r False have "list_all plain (tl (split_slash p))"
        unfolding normal_path_def by (simp split: if_splits)
      with True show ?thesis by (simp add: getDirs_absolute)
    next
      case F: False
      with n r False have "normal_segs (split_slash p)"
        unfolding normal_path_def by (simp split: if_splits)
      with F show ?thesis by (simp add: getDirs_relative)
    qed
  qed
qed


lemma normal_segs_dots: "normal_segs acc \<Longrightarrow> acc \<noteq> [] \<Longrightarrow> last acc = ''..'' \<Longrightarrow> \<forall>y \<in> set acc. y = ''..''"
proof (induction acc rule: rev_induct)
  case Nil
  then show ?case by simp
next
  case (snoc x xs)
  then show ?case by (auto simp: normal_segs_snoc plain_def)
qed

lemma normalize_step_plain:
  "list_all plain acc \<Longrightarrow> CHR ''/'' \<notin> set seg \<Longrightarrow> list_all plain (normalize_step False acc seg)"
  by (auto simp: normalize_step_def plain_def list_all_iff dest: in_set_butlastD)

lemma normalize_step_normal:
  assumes "normal_segs acc" and "CHR ''/'' \<notin> set seg"
  shows "normal_segs (normalize_step True acc seg)"
proof (cases "seg = [] \<or> seg = ''.''")
  case True
  with assms show ?thesis by (auto simp: normalize_step_def)
next
  case False
  show ?thesis
  proof (cases "seg = ''..''")
    case True
    show ?thesis
    proof (cases "acc \<noteq> [] \<and> last acc \<noteq> ''..''")
      case T: True
      have "normal_segs (take (length acc - 1) acc)" using assms(1) by (rule normal_segs_take)
      with T True show ?thesis by (simp add: normalize_step_def butlast_conv_take)
    next
      case F: False
      then have "\<forall>y \<in> set acc. y = ''..''"
        using normal_segs_dots [OF assms(1)] by (cases "acc = []") auto
      with F True assms(1) show ?thesis
        by (auto simp: normalize_step_def normal_segs_snoc)
    qed
  next
    case F: False
    with False assms have "plain seg" by (simp add: plain_def)
    with F False assms(1) show ?thesis by (simp add: normalize_step_def normal_segs_snoc)
  qed
qed

lemma normalize_steps_plain_inv:
  "list_all plain acc \<Longrightarrow> \<forall>w \<in> set xs. CHR ''/'' \<notin> set w \<Longrightarrow>
   list_all plain (foldl (normalize_step False) acc xs)"
  by (induction xs arbitrary: acc) (simp_all add: normalize_step_plain)

lemma normalize_steps_normal_inv:
  "normal_segs acc \<Longrightarrow> \<forall>w \<in> set xs. CHR ''/'' \<notin> set w \<Longrightarrow>
   normal_segs (foldl (normalize_step True) acc xs)"
  by (induction xs arbitrary: acc) (simp_all add: normalize_step_normal)

lemma strip_keep: "p = [] \<or> last p \<noteq> CHR ''/'' \<Longrightarrow> stripTrailingSlashes p = p"
  by (subst stripTrailingSlashes.simps) auto

lemma strip_one: "p \<noteq> [] \<Longrightarrow> last p \<noteq> CHR ''/'' \<Longrightarrow> stripTrailingSlashes (p @ ''/'') = p"
  by (subst stripTrailingSlashes.simps) (simp add: strip_keep)

lemma normal_path_join: "normal_path (stripTrailingSlashes (join [x]))"
proof (cases "x = []")
  case True
  then have "join [x] = ''.''" by (simp add: join_def)
  then have "stripTrailingSlashes (join [x]) = ''.''" by (simp add: strip_keep)
  then show ?thesis by (simp add: normal_path_def)
next
  case False
  define ab where "ab = (hd x = CHR ''/'')"
  define R where "R = foldl (normalize_step (\<not> ab)) [] (split_slash x)"
  define X where "X = (if ab then CHR ''/'' # join_slash R else join_slash R)"
  have ns: "\<forall>w \<in> set (split_slash x). CHR ''/'' \<notin> set w"
    by (simp add: split_slash_noslash_all)
  have RR: "if ab then list_all plain R else normal_segs R"
    using normalize_steps_plain_inv [of "[]", OF _ ns] normalize_steps_normal_inv [of "[]", OF _ ns]
    by (simp add: R_def normal_segs_Nil)
  have Rn: "\<forall>w \<in> set R. w \<noteq> [] \<and> CHR ''/'' \<notin> set w"
    using RR normal_segs_noslash [of R]
    by (cases ab) (auto simp: list_all_iff plain_def)
  have jx: "join [x] = posix_normalize x" using False by (simp add: join_def)
  have pn: "posix_normalize x =
      (if join_slash R = [] then
         (if ab then ''/'' else if last x = CHR ''/'' then ''./'' else ''.'')
       else if ab then CHR ''/'' # (if last x = CHR ''/'' then join_slash R @ ''/'' else join_slash R)
       else (if last x = CHR ''/'' then join_slash R @ ''/'' else join_slash R))"
    using False unfolding posix_normalize_def normalizeString_def R_def ab_def Let_def by simp
  show ?thesis
  proof (cases "R = []")
    case True
    then have "join [x] = ''/'' \<or> join [x] = ''./'' \<or> join [x] = ''.''"
      unfolding jx pn by simp
    moreover have "stripTrailingSlashes ''/'' = ''/''"
      by (subst stripTrailingSlashes.simps) simp
    moreover have "stripTrailingSlashes ''./'' = ''.''"
      using strip_one [of "''.''"] by simp
    moreover have "stripTrailingSlashes ''.'' = ''.''"
      by (simp add: strip_keep)
    ultimately have "stripTrailingSlashes (join [x]) = ''/'' \<or> stripTrailingSlashes (join [x]) = ''.''"
      by auto
    then show ?thesis unfolding normal_path_def by auto
  next
    case Rne: False
    have jne: "join_slash R \<noteq> []" using Rn Rne by (simp add: join_slash_Nil_iff)
    have "last R \<in> set R" using Rne by simp
    with Rn have a: "last R \<noteq> []" "CHR ''/'' \<notin> set (last R)" by blast+
    then have "last (last R) \<in> set (last R)" by simp
    with a have "last (last R) \<noteq> CHR ''/''" by metis
    with Rne a have lj: "last (join_slash R) \<noteq> CHR ''/''" by (simp add: last_join_slash)
    have Xl: "X \<noteq> []" "last X \<noteq> CHR ''/''" using jne lj by (simp_all add: X_def)
    have "join [x] = X \<or> join [x] = X @ ''/''"
      unfolding jx pn X_def using jne by simp
    then have sx: "stripTrailingSlashes (join [x]) = X"
      using Xl strip_keep [of X] strip_one [of X] by auto
    have sj: "split_slash (join_slash R) = R" using Rne Rn by (simp add: split_join)
    have "normal_path X"
    proof (cases ab)
      case True
      with RR sj show ?thesis by (simp add: normal_path_def X_def)
    next
      case F: False
      have "hd R \<in> set R" using Rne by simp
      with Rn have b: "hd R \<noteq> []" "CHR ''/'' \<notin> set (hd R)" by blast+
      then have "hd (hd R) \<noteq> CHR ''/''" by (cases "hd R") auto
      with Rne b have "hd (join_slash R) \<noteq> CHR ''/''" by (simp add: hd_join_slash)
      with F RR sj show ?thesis by (simp add: normal_path_def X_def)
    qed
    with sx show ?thesis by simp
  qed
qed

lemma normal_path_canonical:
  "\<forall>s. normal_path s \<longrightarrow> normal_path (lc s) \<Longrightarrow> normal_path (canonical nu lc q)"
  by (simp add: canonical_def normal_path_join)


text \<open>
  C5 (counterexample). The path of an entry is relative to the extraction root:
  \<open>a/b/c\<close> is its own canonical form and its ancestor list is \<open>[a, a/b]\<close>, without
  \<open>/\<close>. For the root itself the list is \<open>[/]\<close>, the path itself.
\<close>

theorem C5_relative_path_counterexample:
  "canonical (\<lambda>x. x) (\<lambda>x. x) ''a/b/c'' = ''a/b/c'' \<and>
   getDirs ''a/b/c'' = [''a'', ''a/b''] \<and>
   ''/'' \<notin> set (getDirs ''a/b/c'') \<and>
   canonical (\<lambda>x. x) (\<lambda>x. x) ''/'' = ''/'' \<and>
   getDirs ''/'' = [''/'']"
  by code_simp

text \<open>
  C5 (amended). For every canonical path \<open>p\<close> that \<open>reserve\<close> computes, other than
  \<open>/\<close> itself, the list \<open>getDirs p\<close> is strictly ordered (each element a proper prefix
  of every later one), has no duplicates, and every element is a proper prefix of \<open>p\<close>,
  so \<open>p\<close> is not in it. It contains \<open>/\<close> exactly when \<open>p\<close> is absolute; when it is
  not empty it starts at \<open>/\<close> for an absolute path and at the first segment for a
  relative one, and it ends at the parent of \<open>p\<close>; it has one element for each
  separator in \<open>p\<close>. \<open>toLowerCase\<close> is taken to keep the shape of a path.
\<close>

theorem C5_ancestors_chain:
  assumes "\<forall>s. normal_path s \<longrightarrow> normal_path (lc s)"
    and "p = canonical nu lc q" and "p \<noteq> ''/''"
  shows "sorted_wrt strict_prefix (getDirs p) \<and> distinct (getDirs p) \<and>
      (\<forall>d \<in> set (getDirs p). strict_prefix d p) \<and> p \<notin> set (getDirs p) \<and>
      (''/'' \<in> set (getDirs p) \<longleftrightarrow> hd p = CHR ''/'') \<and>
      (getDirs p \<noteq> [] \<longrightarrow>
         hd (getDirs p) = (if hd p = CHR ''/'' then ''/'' else hd (split_slash p)) \<and>
         p = (if last (getDirs p) = ''/'' then [] else last (getDirs p)) @
               CHR ''/'' # last (split_slash p)) \<and>
      length (getDirs p) = length (split_slash p) - 1"
proof -
  have "normal_path p" using assms(1,2) by (simp add: normal_path_canonical)
  then have "dirs_ok p" using assms(3) by (rule getDirs_normal)
  then show ?thesis unfolding dirs_ok_def by auto
qed

theorem C5_ancestors_chain_witness:
  "''/A/b/c'' = canonical (\<lambda>x. x) (\<lambda>x. x) ''/A/b//c/'' \<and> ''/A/b/c'' \<noteq> ''/'' \<and>
   getDirs ''/A/b/c'' = [''/'', ''/A'', ''/A/b''] \<and>
   sorted_wrt strict_prefix (getDirs ''/A/b/c'') \<and> distinct (getDirs ''/A/b/c'') \<and>
   ''/A/b/c'' \<notin> set (getDirs ''/A/b/c'') \<and> ''/'' \<in> set (getDirs ''/A/b/c'')"
proof -
  have l: "\<forall>s. normal_path s \<longrightarrow> normal_path ((\<lambda>x. x) s)" by simp
  have c: "''/A/b/c'' = canonical (\<lambda>x. x) (\<lambda>x. x) ''/A/b//c/''" by code_simp
  have n: "''/A/b/c'' \<noteq> ''/''" by simp
  have g: "getDirs ''/A/b/c'' = [''/'', ''/A'', ''/A/b'']" by code_simp
  from C5_ancestors_chain [OF l c n] c n g show ?thesis by simp
qed


subsection \<open>The completion tracker\<close>


























subsection \<open>The sanitizer\<close>












text \<open>
  C8 (counterexample). With \<open>strip: 2\<close> and \<open>maxDepth: 1\<close>, the \<open>Link\<close> entry
  \<open>a/b/c/d\<close> to \<open>x\<close> has the path \<open>c/d\<close> after the strip, two segments; its link
  path has fewer segments than \<open>strip\<close>, so \<open>[CHECKPATH]\<close> returns false in the strip
  step, before the depth check: the entry is resumed without any warning.
\<close>

theorem C8_strip_rejects_first_counterexample:
  "strip link_Unpack = 2 \<and> maxDepth link_Unpack = Some 1 \<and>
   drop 2 (split_slash (path link_entry)) = [''c'', ''d''] \<and>
   CHECKPATH example_host link_Unpack link_entry = (False, link_entry, []) \<and>
   ONENTRY example_host link_Unpack link_entry = ([Resume], link_Unpack)"
  by code_simp

text \<open>
  C8 (amended). When the strip step does not reject the entry and leaves it with
  \<open>parts\<close>, the segments of its path after any strip, and these are more than a finite
  \<open>maxDepth\<close>, \<open>[CHECKPATH]\<close> warns \<open>TAR_ENTRY_ERROR\<close>, \<open>path excessively deep\<close>, and
  rejects the entry; \<open>[ONENTRY]\<close> then only resumes it: nothing is pending and no
  reservation is asked for. With a \<open>maxDepth\<close> that is not finite the same entry gets
  no such warning; without the option \<open>maxDepth\<close> is 1024.
\<close>

theorem C8_depth_cap:
  assumes "strip_parts u entry = Some (parts, entry1)"
    and "maxDepth u = Some d" and "d < int (length parts)"
  shows "CHECKPATH h u entry =
           (False, entry1, [Warn ''TAR_ENTRY_ERROR'' ''path excessively deep'']) \<and>
         ONENTRY h u entry =
           ([Warn ''TAR_ENTRY_ERROR'' ''path excessively deep'', Resume], u) \<and>
         Warn ''TAR_ENTRY_ERROR'' ''path excessively deep'' \<notin>
           set (snd (snd (CHECKPATH h (u\<lparr>maxDepth := None\<rparr>) entry))) \<and>
         constructor_maxDepth None = Some 1024"
proof -
  have c: "CHECKPATH h u entry =
      (False, entry1, [Warn ''TAR_ENTRY_ERROR'' ''path excessively deep''])"
    using assms by (simp add: CHECKPATH_def Let_def)
  have "strip_parts (u\<lparr>maxDepth := None\<rparr>) entry = strip_parts u entry"
    by (simp add: strip_parts_def Let_def cong: if_cong)
  with assms(1) have s: "strip_parts (u\<lparr>maxDepth := None\<rparr>) entry = Some (parts, entry1)"
    by simp
  obtain root stripped where sa:
    "stripAbsolutePath h (normalizeWindowsPath (isWindows u) (path entry)) = (root, stripped)"
    by (cases "stripAbsolutePath h (normalizeWindowsPath (isWindows u) (path entry))")
  have "Warn ''TAR_ENTRY_ERROR'' ''path excessively deep'' \<notin>
      set (snd (snd (CHECKPATH h (u\<lparr>maxDepth := None\<rparr>) entry)))"
    unfolding CHECKPATH_def Let_def s by (simp add: sa)
  with c show ?thesis
    by (simp add: ONENTRY_def ONENTRY_next_def constructor_maxDepth_def DEFAULT_MAX_DEPTH_def)
qed

theorem C8_depth_cap_witness:
  "strip_parts example_Unpack (example_entry File ''a/b/c/d/e'') =
     Some ([''a'', ''b'', ''c'', ''d'', ''e''], example_entry File ''a/b/c/d/e'') \<and>
   maxDepth example_Unpack = Some 3 \<and>
   ONENTRY example_host example_Unpack (example_entry File ''a/b/c/d/e'') =
     ([Warn ''TAR_ENTRY_ERROR'' ''path excessively deep'', Resume], example_Unpack)"
proof -
  have s: "strip_parts example_Unpack (example_entry File ''a/b/c/d/e'') =
      Some ([''a'', ''b'', ''c'', ''d'', ''e''], example_entry File ''a/b/c/d/e'')"
    by code_simp
  have m: "maxDepth example_Unpack = Some 3" by (simp add: example_Unpack_def)
  have l: "3 < int (length [''a'', ''b'', ''c'', ''d'', ''e''])" by simp
  from C8_depth_cap [OF s m l, of example_host] s m show ?thesis by simp
qed




subsection \<open>The reconciler\<close>

lemma ONERROR_no_removal: "\<not> list_ex (removes a) (fst (ONERROR u er entry))"
  by (simp add: ONERROR_def UNPEND_def MAYBECLOSE_def Let_def)

lemma SKIP_no_removal: "\<not> list_ex (removes a) (fst (SKIP u entry))"
  by (simp add: SKIP_def UNPEND_def MAYBECLOSE_def Let_def)

lemma PRUNECACHE_no_removal: "\<not> list_ex (removes a) (PRUNECACHE entry)"
  by (simp add: PRUNECACHE_def)

lemma materialize_no_removal: "\<not> list_ex (removes a) (materialize h u entry)"
  by (simp add: materialize_def Let_def)

lemma MAKEFS_no_removal: "\<not> list_ex (removes a) (fst (MAKEFS h u er entry))"
  by (cases er)
    (simp_all add: MAKEFS_def Let_def split_def materialize_no_removal PRUNECACHE_no_removal
      ONERROR_no_removal)

lemma afterMakeParent_cwd:
  assumes "String_of (absolute entry) = cwd u"
  shows "\<not> list_ex (removes (cwd u)) (fst (afterMakeParent h u fs entry))"
proof (cases "lstat_answer fs (cwd u)")
  case (Inl er)
  then show ?thesis
    using MAKEFS_no_removal [of "cwd u" h u None entry] assms
    by (simp add: afterMakeParent_def Let_def split_def)
next
  case (Inr st)
  then show ?thesis
    using MAKEFS_no_removal [of "cwd u" h u None entry]
      MAKEFS_no_removal [of "cwd u" h u "chmod_answer fs (cwd u)" entry]
      SKIP_no_removal [of "cwd u" u entry] assms
    by (simp add: afterMakeParent_def Let_def split_def PRUNECACHE_no_removal)
qed

lemma start_cwd:
  assumes "String_of (absolute entry) = cwd u"
  shows "\<not> list_ex (removes (cwd u)) (fst (start h u fs entry))"
  using afterMakeParent_cwd [OF assms, of h fs] assms
  by (simp add: start_def Let_def)

lemma CHECKFS2_never_removes_cwd:
  assumes "absolute entry = Some (cwd u)"
  shows "\<not> list_ex (removes (cwd u)) (fst (CHECKFS2 h u fs entry))"
proof -
  have a: "String_of (absolute entry) = cwd u" using assms by (simp add: String_of_def)
  have a': "String_of (absolute entry) = cwd (u\<lparr>CHECKED_CWD := True\<rparr>)" using a by simp
  show ?thesis
    using start_cwd [OF a, of h fs] start_cwd [OF a', of h fs]
    by (simp add: CHECKFS2_def Let_def split_def PRUNECACHE_no_removal ONERROR_no_removal
        split: option.splits)
qed

text \<open>
  Outside that branch the two profiles perform the same file-system actions and give
  the same warnings, whatever the file system answers.
\<close>

lemma filter_PRUNECACHE_fs: "filter fs_action (PRUNECACHE entry) = []"
  by (simp add: PRUNECACHE_def)

lemma MAKEFS_agree:
  "filter fs_action (fst (MAKEFS h u er entry)) =
     filter fs_action (fst (MAKEFS_sync h u er entry)) \<and>
   snd (MAKEFS h u er entry) = snd (MAKEFS_sync h u er entry)"
  by (cases er) (simp_all add: MAKEFS_def MAKEFS_sync_def split_def Let_def filter_PRUNECACHE_fs)

lemma rmdir_branch_cwd [simp]:
  "rmdir_branch (u\<lparr>CHECKED_CWD := b\<rparr>) fs entry = rmdir_branch u fs entry"
  by (simp add: rmdir_branch_def keep_existing_def split: sum.splits)

lemma lstat_agree:
  assumes "\<not> rmdir_branch u fs entry"
  shows "filter fs_action (fst (afterMakeParent h u fs entry)) =
         filter fs_action (fst (CHECKFS_sync_lstat h u fs entry))"
proof (cases "lstat_answer fs (String_of (absolute entry))")
  case (Inl er)
  then show ?thesis
    using MAKEFS_agree [of h u None entry]
    by (simp add: afterMakeParent_def CHECKFS_sync_lstat_def Let_def split_def)
next
  case (Inr st)
  have r: "ISREUSABLE u entry st \<Longrightarrow> st_kind st \<noteq> DirectoryKind"
    by (auto simp: ISREUSABLE_def)
  obtain us er where uf: "unlinkFile (isWindows u) fs (String_of (absolute entry)) = (us, er)"
    by (cases "unlinkFile (isWindows u) fs (String_of (absolute entry))")
  show ?thesis
    using Inr assms r uf MAKEFS_agree [of h u None entry]
      MAKEFS_agree [of h u "chmod_answer fs (String_of (absolute entry))" entry]
      MAKEFS_agree [of h u er entry]
    by (auto simp: afterMakeParent_def CHECKFS_sync_lstat_def Let_def split_def
        rmdir_branch_def filter_PRUNECACHE_fs SKIP_def)
qed

lemma parent_agree:
  assumes "\<not> rmdir_branch u fs entry"
  shows "filter fs_action (fst (start h u fs entry)) =
         filter fs_action (fst (CHECKFS_sync_parent h u fs entry))"
  using lstat_agree [OF assms, of h]
  by (simp add: start_def CHECKFS_sync_parent_def Let_def split_def filter_PRUNECACHE_fs
      split: option.splits)

lemma profiles_agree:
  assumes "\<not> rmdir_branch u fs entry"
  shows "filter fs_action (fst (CHECKFS2 h u fs entry)) =
         filter fs_action (fst (CHECKFS_sync h u fs entry))"
proof -
  have a: "\<not> rmdir_branch (u\<lparr>CHECKED_CWD := True\<rparr>) fs entry" using assms by simp
  show ?thesis
    using parent_agree [OF assms, of h] parent_agree [OF a, of h]
    by (simp add: CHECKFS2_def CHECKFS_sync_def Let_def split_def filter_PRUNECACHE_fs
        split: option.splits)
qed


text \<open>
  C2 (the code at the failing input). \<open>[CHECKPATH]\<close> accepts the \<open>GNUDumpDir\<close> entry
  \<open>./\<close>, whose absolute path is the extraction root. \<open>UnpackSync[CHECKFS]\<close> then calls
  \<open>rmdirSync\<close> on the root; \<open>[CHECKFS2]\<close> of the parallel profile, which guards its
  \<open>rmdir\<close> with \<open>entry.absolute !== this.cwd\<close>, goes from \<open>lstat\<close> to the materializer.
\<close>

theorem C2_sync_rmdir_on_cwd:
  "ONENTRY_next example_host example_Unpack (example_entry GNUDumpDir ''./'') =
     (ToCHECKFS root_entry, []) \<and>
   absolute root_entry = Some (cwd example_Unpack) \<and>
   fst (CHECKFS_sync example_host example_Unpack (example_fs DirectoryKind) root_entry) =
     [PruneCache ''/x'', FsLstat ''/x'', FsRmdir ''/x'',
      Warn ''TAR_ENTRY_ERROR'' ''ENOTEMPTY'', Resume, FsMkdir ''/x'' 448] \<and>
   fst (CHECKFS2 example_host (PEND example_Unpack) (example_fs DirectoryKind) root_entry) =
     [PruneCache ''/x'', FsLstat ''/x'', FsMkdir ''/x'' 448]"
  by code_simp


text \<open>
  C3 (the code at the failing input). A \<open>File\<close> entry whose path holds a directory that
  is not empty: the parallel profile calls \<open>rmdir\<close> and warns once; the sequential
  profile, which does not return after the \<open>[MAKEFS]\<close> that follows \<open>rmdirSync\<close>, goes
  on to \<open>unlinkSync\<close> on the same path and warns a second time.
\<close>

theorem C3_profiles_differ:
  "filter fs_action
     (fst (CHECKFS2 example_host (PEND example_Unpack) (example_fs DirectoryKind) dir_clash_entry)) =
     [FsLstat ''/x/d'', FsRmdir ''/x/d'', Warn ''TAR_ENTRY_ERROR'' ''ENOTEMPTY''] \<and>
   filter fs_action
     (fst (CHECKFS_sync example_host example_Unpack (example_fs DirectoryKind) dir_clash_entry)) =
     [FsLstat ''/x/d'', FsRmdir ''/x/d'', Warn ''TAR_ENTRY_ERROR'' ''ENOTEMPTY'',
      FsUnlink ''/x/d'', Warn ''TAR_ENTRY_ERROR'' ''EISDIR'']"
  by code_simp


lemma filter_PRUNECACHE: "filter (\<lambda>e. \<not> preparation e) (PRUNECACHE entry) = []"
  by (simp add: PRUNECACHE_def)

lemma make_directory_keeps:
  "names t a = Some x \<Longrightarrow> names (make_directory False p t) a = Some x"
  by (auto simp: make_directory_def new_inode_def split: option.splits)

lemma mkdir_on_tree_keeps:
  "names t a = Some x \<Longrightarrow> names (mkdir_on_tree False c d t) a = Some x"
proof -
  have "names t a = Some x \<Longrightarrow> names (fold (make_directory False) ps t) a = Some x" for ps
    by (induction ps arbitrary: t) (simp_all add: make_directory_keeps)
  then show "names t a = Some x \<Longrightarrow> names (mkdir_on_tree False c d t) a = Some x"
    by (simp add: mkdir_on_tree_def)
qed

lemma fs_call_keeps:
  assumes "names t a = Some x" and "\<not> unlink u"
    and "preparation e \<or> (\<exists>p. e = FsLstat p) \<or> (\<exists>p m. e = FsOpen p m)"
  shows "names (fs_call fs u e t) a = Some x"
  using assms
  by (cases e) (auto simp: mkdir_on_tree_keeps open_for_writing_def new_inode_def split: option.splits)

lemma tree_after_keeps:
  assumes "\<not> unlink u"
    and "\<forall>e\<in>set es. preparation e \<or> (\<exists>p. e = FsLstat p) \<or> (\<exists>p m. e = FsOpen p m)"
    and "names t a = Some x"
  shows "names (tree_after fs u es t) a = Some x"
proof -
  have "\<forall>e\<in>set es. preparation e \<or> (\<exists>p. e = FsLstat p) \<or> (\<exists>p m. e = FsOpen p m) \<Longrightarrow>
      names t a = Some x \<Longrightarrow> names (fold (fs_call fs u) es t) a = Some x"
  proof (induction es arbitrary: t)
    case Nil
    then show ?case by simp
  next
    case (Cons e es)
    have "names (fs_call fs u e t) a = Some x"
      using fs_call_keeps [OF Cons.prems(2) assms(1), of e fs] Cons.prems(1) by simp
    then show ?case using Cons.IH [of "fs_call fs u e t"] Cons.prems(1) by simp
  qed
  then show ?thesis using assms by (simp add: tree_after_def)
qed

lemma only_lstat_open:
  assumes "filter (\<lambda>e. \<not> preparation e) es = [FsLstat a, FsOpen a m]"
  shows "\<forall>e\<in>set es. preparation e \<or> (\<exists>p. e = FsLstat p) \<or> (\<exists>p m. e = FsOpen p m)"
proof
  fix e assume e: "e \<in> set es"
  show "preparation e \<or> (\<exists>p. e = FsLstat p) \<or> (\<exists>p m. e = FsOpen p m)"
  proof (cases "preparation e")
    case True
    then show ?thesis by simp
  next
    case False
    with e have "e \<in> set (filter (\<lambda>e. \<not> preparation e) es)" by simp
    then show ?thesis unfolding assms by auto
  qed
qed

text \<open>
  C4 (counterexample). \<open>[ISREUSABLE]\<close> asks for the type \<open>File\<close>: over a regular file
  with one link an \<open>OldFile\<close> entry is unlinked and created anew, so the path names a
  new inode. With \<open>keep\<close> a \<open>File\<close> entry is skipped, not written. And when
  \<open>[MKDIR]\<close> of the parent fails, here because the parent is a symbolic link, either
  profile warns and the file is neither looked at nor opened.
\<close>

theorem C4_reuse_counterexample:
  "fst (CHECKFS2 example_host (PEND example_Unpack) (example_fs RegularFile)
        (file_entry\<lparr>entry_type := OldFile\<rparr>)) =
     [PruneCache ''/x/f'', FsLstat ''/x/f'', FsUnlink ''/x/f'', FsOpen ''/x/f'' 320] \<and>
   names example_tree ''/x/f'' = Some (7, RegularFile) \<and>
   names (tree_after (example_fs RegularFile) (PEND example_Unpack)
            (fst (CHECKFS2 example_host (PEND example_Unpack) (example_fs RegularFile)
                    (file_entry\<lparr>entry_type := OldFile\<rparr>)))
            example_tree) ''/x/f'' = Some (8, RegularFile) \<and>
   fst (CHECKFS2 example_host (PEND (example_Unpack\<lparr>keep := True\<rparr>)) (example_fs RegularFile)
        file_entry) =
     [PruneCache ''/x/f'', FsLstat ''/x/f'', Resume, PruneCache ''/x/f'', Released] \<and>
   fst (CHECKFS2 example_host (PEND example_Unpack) symlink_parent_fs deep_file_entry) =
     [PruneCache ''/x/d/f'', FsMkdir ''/x/d'' 493, Warn ''TAR_ENTRY_ERROR'' ''SymlinkError'',
      Resume, PruneCache ''/x/d/f'', Released] \<and>
   fst (CHECKFS_sync example_host example_Unpack symlink_parent_fs deep_file_entry) =
     [PruneCache ''/x/d/f'', FsMkdir ''/x/d'' 493, Warn ''TAR_ENTRY_ERROR'' ''SymlinkError'',
      Resume]"
  by code_simp

text \<open>
  C4 (amended). For an entry of type \<open>File\<close> whose path holds a regular file with at
  most one link, with \<open>unlink\<close> off, not on Windows, the entry not skipped for \<open>keep\<close>
  or \<open>newer\<close>, and \<open>[MKDIR]\<close> of the root and of the parent not failing, the
  reconciler of either profile reuses the file that is there. Apart from pruning the
  cache and making the root and the parent it does \<open>lstat\<close> and then opens that path
  for writing, with no \<open>unlink\<close>, \<open>rmdir\<close>, \<open>rename\<close> or \<open>chmod\<close>; the entry
  stays pending. The path names the same inode after these calls as before them: the
  materializer has the existing inode, and the file is written over in place.
\<close>

theorem C4_reuse_existing_file:
  assumes "entry_type entry = File"
    and "lstat_answer fs (String_of (absolute entry)) = Inr st"
    and "st_kind st = RegularFile" and "st_nlink st \<le> 1"
    and "\<not> unlink u" and "\<not> isWindows u" and "\<not> keep_existing u entry st"
    and "dirs_made h u fs entry"
  shows "filter (\<lambda>e. \<not> preparation e) (fst (CHECKFS2 h u fs entry)) =
           [FsLstat (String_of (absolute entry)),
            FsOpen (String_of (absolute entry)) (FILE_mode u entry)] \<and>
         filter (\<lambda>e. \<not> preparation e) (fst (CHECKFS_sync h u fs entry)) =
           [FsLstat (String_of (absolute entry)),
            FsOpen (String_of (absolute entry)) (FILE_mode u entry)] \<and>
         PENDING (snd (CHECKFS2 h u fs entry)) = PENDING u \<and>
         (names t (String_of (absolute entry)) = Some x \<longrightarrow>
            names (tree_after fs u (fst (CHECKFS2 h u fs entry)) t) (String_of (absolute entry)) =
              Some x \<and>
            names (tree_after fs u (fst (CHECKFS_sync h u fs entry)) t) (String_of (absolute entry)) =
              Some x)"
proof -
  have r: "ISREUSABLE u entry st" "ISREUSABLE (u\<lparr>CHECKED_CWD := True\<rparr>) entry st"
    using assms by (simp_all add: ISREUSABLE_def)
  have k: "\<not> keep_existing (u\<lparr>CHECKED_CWD := True\<rparr>) entry st"
    using assms(7) by (simp add: keep_existing_def)
  have m: "materialize h v entry = [FsOpen (String_of (absolute entry)) (FILE_mode v entry)]" for v
    using assms(1) by (simp add: materialize_def Let_def)
  have fm: "FILE_mode (u\<lparr>CHECKED_CWD := True\<rparr>) entry = FILE_mode u entry"
    by (simp add: FILE_mode_def split: option.splits)
  have a: "afterMakeParent h v fs entry =
      ([FsLstat (String_of (absolute entry)),
        FsOpen (String_of (absolute entry)) (FILE_mode v entry)], v)"
    if "ISREUSABLE v entry st" "\<not> keep_existing v entry st" for v
    using that assms(2) by (simp add: afterMakeParent_def Let_def MAKEFS_def m)
  have s: "CHECKFS_sync_lstat h v fs entry =
      ([FsLstat (String_of (absolute entry)),
        FsOpen (String_of (absolute entry)) (FILE_mode v entry)], v)"
    if "ISREUSABLE v entry st" "\<not> keep_existing v entry st" for v
    using that assms(2) by (simp add: CHECKFS_sync_lstat_def Let_def MAKEFS_sync_def m)
  have d: "CHECKED_CWD u \<or> mkdir_answer fs (normalizeWindowsPath (isWindows u) (cwd u)) = None"
    "String_of (absolute entry) = cwd u \<or>
     normalizeWindowsPath (isWindows u) (dirname h (String_of (absolute entry))) = cwd u \<or>
     mkdir_answer fs (normalizeWindowsPath (isWindows u)
       (normalizeWindowsPath (isWindows u) (dirname h (String_of (absolute entry))))) = None"
    using assms(8) by (simp_all add: dirs_made_def Let_def)
  have c1: "filter (\<lambda>e. \<not> preparation e) (fst (CHECKFS2 h u fs entry)) =
           [FsLstat (String_of (absolute entry)),
            FsOpen (String_of (absolute entry)) (FILE_mode u entry)]"
    and c3: "PENDING (snd (CHECKFS2 h u fs entry)) = PENDING u"
    using d a [OF r(1) assms(7)] a [OF r(2) k]
    by (auto simp: CHECKFS2_def start_def Let_def filter_PRUNECACHE fm)
  have c2: "filter (\<lambda>e. \<not> preparation e) (fst (CHECKFS_sync h u fs entry)) =
           [FsLstat (String_of (absolute entry)),
            FsOpen (String_of (absolute entry)) (FILE_mode u entry)]"
    using d s [OF r(1) assms(7)] s [OF r(2) k]
    by (auto simp: CHECKFS_sync_def CHECKFS_sync_parent_def Let_def filter_PRUNECACHE fm)
  note t1 = tree_after_keeps [OF assms(5) only_lstat_open [OF c1], of t _ x fs]
  note t2 = tree_after_keeps [OF assms(5) only_lstat_open [OF c2], of t _ x fs]
  show ?thesis using c1 c2 c3 t1 t2 by simp
qed


theorem C4_reuse_existing_file_witness:
  "entry_type file_entry = File \<and>
   lstat_answer (example_fs RegularFile) ''/x/f'' = Inr (example_stats RegularFile) \<and>
   st_nlink (example_stats RegularFile) \<le> 1 \<and>
   dirs_made example_host (PEND (example_Unpack\<lparr>CHECKED_CWD := False\<rparr>))
     (example_fs RegularFile) file_entry \<and>
   fst (CHECKFS2 example_host (PEND (example_Unpack\<lparr>CHECKED_CWD := False\<rparr>))
          (example_fs RegularFile) file_entry) =
     [PruneCache ''/x/f'', FsMkdir ''/x'' 493, FsLstat ''/x/f'', FsOpen ''/x/f'' 320] \<and>
   filter (\<lambda>e. \<not> preparation e)
     (fst (CHECKFS2 example_host (PEND (example_Unpack\<lparr>CHECKED_CWD := False\<rparr>))
             (example_fs RegularFile) file_entry)) =
     [FsLstat ''/x/f'', FsOpen ''/x/f'' 320] \<and>
   names example_tree ''/x/f'' = Some (7, RegularFile) \<and>
   names (tree_after (example_fs RegularFile) (PEND (example_Unpack\<lparr>CHECKED_CWD := False\<rparr>))
            (fst (CHECKFS2 example_host (PEND (example_Unpack\<lparr>CHECKED_CWD := False\<rparr>))
                    (example_fs RegularFile) file_entry))
            example_tree) ''/x/f'' = Some (7, RegularFile)"
proof -
  define v where "v = PEND (example_Unpack\<lparr>CHECKED_CWD := False\<rparr>)"
  have a: "String_of (absolute file_entry) = ''/x/f''"
    by (simp add: file_entry_def String_of_def)
  have t: "entry_type file_entry = File" by (simp add: file_entry_def example_entry_def)
  have l: "lstat_answer (example_fs RegularFile) (String_of (absolute file_entry)) =
      Inr (example_stats RegularFile)"
    by (simp add: example_fs_def)
  have k: "st_kind (example_stats RegularFile) = RegularFile"
    and n: "st_nlink (example_stats RegularFile) \<le> 1"
    by (simp_all add: example_stats_def)
  have u: "\<not> unlink v" and w: "\<not> isWindows v"
    by (simp_all add: v_def PEND_def example_Unpack_def)
  have x: "\<not> keep_existing v file_entry (example_stats RegularFile)"
    by (simp add: keep_existing_def v_def PEND_def example_Unpack_def)
  have m: "dirs_made example_host v (example_fs RegularFile) file_entry"
    by (simp add: dirs_made_def Let_def example_fs_def)
  have f: "FILE_mode v file_entry = 320"
    by (simp add: FILE_mode_def file_entry_def example_entry_def js_and_def)
  have c: "fst (CHECKFS2 example_host v (example_fs RegularFile) file_entry) =
      [PruneCache ''/x/f'', FsMkdir ''/x'' 493, FsLstat ''/x/f'', FsOpen ''/x/f'' 320]"
    unfolding v_def by code_simp
  have i: "names example_tree ''/x/f'' = Some (7, RegularFile)"
    by (simp add: example_tree_def)
  from C4_reuse_existing_file [OF t l k n u w x m, of example_tree "(7, RegularFile)"]
    a t l n f c i m
  show ?thesis unfolding v_def [symmetric] by simp
qed

end
